theory Spec2Isabelle
  imports Complex_Main "HOL-Library.Log_Nat"
begin

section \<open>JavaScript numbers, as far as the program uses them\<close>

text \<open>
  A JavaScript number is \<open>NaN\<close>, one of the two infinities, or a finite value. The
  quadtree walker and the stitching only compare numbers (\<open><\<close>, \<open>>\<close>, \<open>>=\<close>,
  \<open>Number.isFinite\<close>) and are stated for finite values of any linearly ordered type
  \<open>'a\<close>. Where the program computes or stores (the \<open>Float32Array\<close>s of the pyramid,
  \<open>intervals\<close>, \<open>smooth\<close>) a finite value is a rational, and the rounding of the
  operation is written out. Zero has no sign in this model.
\<close>

datatype 'a jsnum = NaN | NegInf | Fin 'a | PosInf

text \<open>\<open>a < b\<close> of JavaScript: false as soon as one side is \<open>NaN\<close>.\<close>

fun js_lt :: "('a::linorder) jsnum \<Rightarrow> 'a jsnum \<Rightarrow> bool" where
  "js_lt NaN _ = False"
| "js_lt _ NaN = False"
| "js_lt _ NegInf = False"
| "js_lt NegInf _ = True"
| "js_lt PosInf _ = False"
| "js_lt (Fin a) PosInf = True"
| "js_lt (Fin a) (Fin b) = (a < b)"

text \<open>\<open>a >= b\<close> of JavaScript: false as soon as one side is \<open>NaN\<close>, else \<open>\<not> a < b\<close>.\<close>

definition js_ge :: "('a::linorder) jsnum \<Rightarrow> 'a jsnum \<Rightarrow> bool" where
  "js_ge a b = (a \<noteq> NaN \<and> b \<noteq> NaN \<and> \<not> js_lt a b)"

fun isFinite :: "'a jsnum \<Rightarrow> bool" where
  "isFinite (Fin _) = True"
| "isFinite _ = False"

text \<open>
  \<open>data[i]\<close>: reading past the end of an array gives \<open>undefined\<close>, which every use in this
  program (\<open><\<close>, \<open>>\<close>, \<open>Number.isFinite\<close>, a store into a \<open>Float32Array\<close>) treats as
  \<open>NaN\<close>.
\<close>

definition get :: "'a jsnum list \<Rightarrow> nat \<Rightarrow> 'a jsnum" where
  "get data i = (if i < length data then data ! i else NaN)"

section \<open>Rounding\<close>

text \<open>
  The rounding of IEEE 754 doubles: to the nearest multiple of the unit in the last
  place (53 significant bits, from \<open>2^-1074\<close> on), ties to the even multiple, and to an
  infinity from \<open>2^1024\<close> on.
\<close>

definition round_even :: "rat \<Rightarrow> int" where
  "round_even r =
    (let f = \<lfloor>r\<rfloor>; d = r - of_int f
     in if d < 1 / 2 then f else if 1 / 2 < d then f + 1 else if even f then f else f + 1)"

text \<open>For \<open>0 < x\<close>: the exponent \<open>e\<close> with \<open>2^e \<le> x < 2^(e+1)\<close>.\<close>

definition ilog2 :: "rat \<Rightarrow> int" where
  "ilog2 x = (if 1 \<le> x then bitlen \<lfloor>x\<rfloor> - 1 else - bitlen (\<lceil>1 / x\<rceil> - 1))"

definition pow2 :: "int \<Rightarrow> rat" where
  "pow2 e = (if 0 \<le> e then 2 ^ nat e else 1 / 2 ^ nat (- e))"

definition double_round :: "rat \<Rightarrow> rat jsnum" where
  "double_round x =
    (if x = 0 then Fin 0
     else
       (let ulp = pow2 (max (ilog2 \<bar>x\<bar> - 52) (- 1074));
            r = of_int (round_even (x / ulp)) * ulp
        in if pow2 1024 \<le> r then PosInf else if r \<le> - pow2 1024 then NegInf else Fin r))"

text \<open>
  The arithmetic of doubles on these numbers: the exact result of an operation on finite
  values is rounded by \<open>rnd\<close>, which is \<open>double_round\<close> in the program; the results at
  the infinities and \<open>NaN\<close> are those of IEEE 754. \<open>a === b\<close> is false when one side is
  \<open>NaN\<close>.
\<close>

definition js_le :: "('a::linorder) jsnum \<Rightarrow> 'a jsnum \<Rightarrow> bool" where
  "js_le a b = (a \<noteq> NaN \<and> b \<noteq> NaN \<and> \<not> js_lt b a)"

fun js_ceil :: "rat jsnum \<Rightarrow> rat jsnum" where
  "js_ceil (Fin x) = Fin (of_int \<lceil>x\<rceil>)"
| "js_ceil v = v"

fun js_div :: "(rat \<Rightarrow> rat jsnum) \<Rightarrow> rat jsnum \<Rightarrow> rat jsnum \<Rightarrow> rat jsnum" where
  "js_div rnd (Fin x) (Fin y) =
    (if y = 0 then (if x = 0 then NaN else if 0 < x then PosInf else NegInf) else rnd (x / y))"
| "js_div rnd (Fin x) PosInf = Fin 0"
| "js_div rnd (Fin x) NegInf = Fin 0"
| "js_div rnd PosInf (Fin y) = (if y < 0 then NegInf else PosInf)"
| "js_div rnd NegInf (Fin y) = (if y < 0 then PosInf else NegInf)"
| "js_div rnd _ _ = NaN"

fun js_mul :: "(rat \<Rightarrow> rat jsnum) \<Rightarrow> rat jsnum \<Rightarrow> rat jsnum \<Rightarrow> rat jsnum" where
  "js_mul rnd (Fin x) (Fin y) = rnd (x * y)"
| "js_mul rnd (Fin x) PosInf = (if x = 0 then NaN else if 0 < x then PosInf else NegInf)"
| "js_mul rnd (Fin x) NegInf = (if x = 0 then NaN else if 0 < x then NegInf else PosInf)"
| "js_mul rnd PosInf (Fin y) = (if y = 0 then NaN else if 0 < y then PosInf else NegInf)"
| "js_mul rnd NegInf (Fin y) = (if y = 0 then NaN else if 0 < y then NegInf else PosInf)"
| "js_mul rnd PosInf PosInf = PosInf"
| "js_mul rnd PosInf NegInf = NegInf"
| "js_mul rnd NegInf PosInf = NegInf"
| "js_mul rnd NegInf NegInf = PosInf"
| "js_mul rnd _ _ = NaN"

fun js_add :: "(rat \<Rightarrow> rat jsnum) \<Rightarrow> rat jsnum \<Rightarrow> rat jsnum \<Rightarrow> rat jsnum" where
  "js_add rnd (Fin x) (Fin y) = rnd (x + y)"
| "js_add rnd (Fin x) PosInf = PosInf"
| "js_add rnd (Fin x) NegInf = NegInf"
| "js_add rnd PosInf (Fin y) = PosInf"
| "js_add rnd NegInf (Fin y) = NegInf"
| "js_add rnd PosInf PosInf = PosInf"
| "js_add rnd NegInf NegInf = NegInf"
| "js_add rnd _ _ = NaN"

fun js_neg :: "rat jsnum \<Rightarrow> rat jsnum" where
  "js_neg (Fin x) = Fin (- x)"
| "js_neg PosInf = NegInf"
| "js_neg NegInf = PosInf"
| "js_neg NaN = NaN"

definition js_sub :: "(rat \<Rightarrow> rat jsnum) \<Rightarrow> rat jsnum \<Rightarrow> rat jsnum \<Rightarrow> rat jsnum" where
  "js_sub rnd a b = js_add rnd a (js_neg b)"

definition js_eq :: "'a jsnum \<Rightarrow> 'a jsnum \<Rightarrow> bool" where
  "js_eq a b = (a \<noteq> NaN \<and> a = b)"

text \<open>
  The rounding of a store into a \<open>Float32Array\<close>: 24 significant bits, from \<open>2^-149\<close>
  on, ties to even, and to an infinity from \<open>2^128\<close> on. \<open>NaN\<close> and the infinities are
  stored as they are.
\<close>

definition fround :: "rat \<Rightarrow> rat jsnum" where
  "fround x =
    (if x = 0 then Fin 0
     else
       (let ulp = pow2 (max (ilog2 \<bar>x\<bar> - 23) (- 149));
            r = of_int (round_even (x / ulp)) * ulp
        in if pow2 128 \<le> r then PosInf else if r \<le> - pow2 128 then NegInf else Fin r))"

fun toFloat32 :: "rat jsnum \<Rightarrow> rat jsnum" where
  "toFloat32 (Fin x) = fround x"
| "toFloat32 v = v"

section \<open>The min/max pyramid\<close>

record 'a level =
  min_arr :: "'a jsnum list"
  max_arr :: "'a jsnum list"
  width :: nat
  height :: nat
  scale :: nat

text \<open>\<open>minFinite\<close> and \<open>maxFinite\<close> run over \<open>arguments\<close>, here the list of arguments.\<close>

definition minFinite :: "('a::linorder) jsnum list \<Rightarrow> 'a jsnum" where
  "minFinite args = foldl (\<lambda>r v. if js_lt v r then v else r) PosInf args"

definition maxFinite :: "('a::linorder) jsnum list \<Rightarrow> 'a jsnum" where
  "maxFinite args = foldl (\<lambda>r v. if js_lt r v then v else r) NegInf args"

text \<open>
  \<open>reduceWith\<close>: \<open>out\<close> is a fresh \<open>Float32Array\<close> (all zero), and a store into it
  rounds to float32. The two nested loops, the
  extra column of an odd width, the extra row of an odd height and the corner cell write
  into it in the order of the source. After a loop \<open>for (x = 0; x < n; x++)\<close> the variable
  \<open>x\<close> is \<open>n\<close>. In the last test \<open>x\<close> is \<open>floor(width / 2)\<close> whenever \<open>y < outHeight\<close>
  holds (the loop of the extra row has just run); when no loop over \<open>x\<close> has run at all
  the height is 0 and the test is false in the source too.
\<close>

definition reduceWith ::
  "nat \<Rightarrow> nat \<Rightarrow> rat jsnum list \<Rightarrow> (rat jsnum list \<Rightarrow> rat jsnum) \<Rightarrow> rat jsnum list" where
  "reduceWith w h data reduce =
    (let outWidth = (w + 1) div 2;
         outHeight = (h + 1) div 2;
         out0 = replicate (outWidth * outHeight) (Fin 0);
         out1 = fold (\<lambda>y out.
                  let out' = fold (\<lambda>x out. out[y * outWidth + x := toFloat32 (reduce
                               [get data ((y * 2 + 0) * w + (x * 2 + 0)), get data ((y * 2 + 0) * w + (x * 2 + 1)),
                                get data ((y * 2 + 1) * w + (x * 2 + 0)), get data ((y * 2 + 1) * w + (x * 2 + 1))])])
                             [0..<w div 2] out;
                      x = w div 2
                  in if x < outWidth
                     then out'[y * outWidth + x := toFloat32 (reduce
                               [get data ((y * 2 + 0) * w + (x * 2 + 0)),
                                get data ((y * 2 + 1) * w + (x * 2 + 0))])]
                     else out')
                [0..<h div 2] out0;
         y = h div 2;
         out2 = (if y < outHeight
                 then fold (\<lambda>x out. out[y * outWidth + x := toFloat32 (reduce
                               [get data ((y * 2 + 0) * w + (x * 2 + 0)), get data ((y * 2 + 0) * w + (x * 2 + 1))])])
                        [0..<w div 2] out1
                 else out1);
         x = w div 2
     in if x < outWidth \<and> y < outHeight
        then out2[y * outWidth + x := toFloat32 (reduce [get data ((y * 2 + 0) * w + (x * 2 + 0))])]
        else out2)"

text \<open>Build mipmap layer N from layer N+1.\<close>

definition mipmapReduce :: "rat level \<Rightarrow> rat level" where
  "mipmapReduce lv =
    \<lparr> min_arr = reduceWith (width lv) (height lv) (min_arr lv) minFinite,
      max_arr = reduceWith (width lv) (height lv) (max_arr lv) maxFinite,
      width = (width lv + 1) div 2,
      height = (height lv + 1) div 2,
      scale = scale lv * 2 \<rparr>"

text \<open>
  The loop of the constructor: while the first level is wider or higher than one cell,
  \<open>unshift\<close> its reduction.
\<close>

function build :: "rat level list \<Rightarrow> rat level list" where
  "build [] = []"
| "build (l0 # ls) =
    (if width l0 > 1 \<or> height l0 > 1 then build (mipmapReduce l0 # l0 # ls) else l0 # ls)"
  by pat_completeness auto
termination
proof (relation "measure (\<lambda>ls. case ls of [] \<Rightarrow> 0 | l0 # _ \<Rightarrow> width l0 + height l0)")
  fix l0 :: "rat level" and ls :: "rat level list"
  assume "1 < width l0 \<or> 1 < height l0"
  then have "(width l0 + 1) div 2 + (height l0 + 1) div 2 < width l0 + height l0"
    by presburger
  then show "(mipmapReduce l0 # l0 # ls, l0 # ls)
      \<in> measure (\<lambda>ls. case ls of [] \<Rightarrow> 0 | l0 # _ \<Rightarrow> width l0 + height l0)"
    by (simp add: mipmapReduce_def)
qed simp

declare build.simps [simp del]

record 'a mipmap =
  levels :: "'a level list"

definition ContourMipmap :: "rat jsnum list \<Rightarrow> nat \<Rightarrow> nat \<Rightarrow> rat mipmap" where
  "ContourMipmap raster w h =
    \<lparr> levels = build [\<lparr> min_arr = raster, max_arr = raster, width = w, height = h, scale = 1 \<rparr>] \<rparr>"

section \<open>The quadtree walker\<close>

datatype cls = OUTSIDE | ABOVE | BELOW | WITHIN

datatype error = TypeError | InvalidArgument | RangeError

text \<open>
  What the two callbacks receive: \<open>addLine(l, x1, y1, x2, y2)\<close> and
  \<open>addNode(l, x, y, e)\<close>, in the order of the calls.
\<close>

datatype event = Line nat nat nat nat nat | Leaf nat nat nat cls

text \<open>
  \<open>maxMipmapLevel = maxMipmapLevel || this.levels.length\<close>: an option left out
  (\<open>None\<close>) and the option 0 are both falsy.
\<close>

definition effectiveMax :: "'a mipmap \<Rightarrow> nat option \<Rightarrow> nat" where
  "effectiveMax this maxMipmapLevel =
    (case maxMipmapLevel of None \<Rightarrow> length (levels this)
     | Some n \<Rightarrow> if n = 0 then length (levels this) else n)"

text \<open>
  \<open>evaluate\<close>: \<open>this.levels[l]\<close> past the last level is \<open>undefined\<close>, and reading its
  \<open>width\<close> throws a \<open>TypeError\<close>.
\<close>

definition evaluate ::
  "('a::linorder) mipmap \<Rightarrow> 'a jsnum \<Rightarrow> nat \<Rightarrow> nat \<Rightarrow> nat \<Rightarrow> nat \<Rightarrow> error + cls" where
  "evaluate this contourLevel maxMipmapLevel l x y =
    (if l < length (levels this) then
       (let ml = levels this ! l;
            i = width ml * y + x
        in if x \<ge> width ml \<or> y \<ge> height ml \<or> \<not> isFinite (get (min_arr ml) i)
              \<or> \<not> isFinite (get (max_arr ml) i) then Inr OUTSIDE
           else if js_ge (get (min_arr ml) i) contourLevel then Inr ABOVE
           else if js_lt (get (max_arr ml) i) contourLevel then Inr BELOW
           else if l \<ge> maxMipmapLevel then Inr ABOVE
           else Inr WITHIN)
     else Inl TypeError)"

text \<open>Statements run in order; the first exception ends the run.\<close>

fun seq :: "(error + 'x list) list \<Rightarrow> error + 'x list" where
  "seq [] = Inr []"
| "seq (Inl e # _) = Inl e"
| "seq (Inr s # rs) = (case seq rs of Inl e \<Rightarrow> Inl e | Inr s' \<Rightarrow> Inr (s @ s'))"

function edgeH ::
  "('a::linorder) mipmap \<Rightarrow> 'a jsnum \<Rightarrow> nat \<Rightarrow> nat \<Rightarrow> nat \<Rightarrow> nat \<Rightarrow> error + event list" where
  "edgeH this c m l x y =
    (case evaluate this c m l x y of Inl err \<Rightarrow> Inl err | Inr e1 \<Rightarrow>
     (case evaluate this c m l (x + 1) y of Inl err \<Rightarrow> Inl err | Inr e2 \<Rightarrow>
       if e1 = ABOVE \<and> e2 = BELOW then Inr [Line l (x + 1) (y + 1) (x + 1) y]
       else if e2 = ABOVE \<and> e1 = BELOW then Inr [Line l (x + 1) y (x + 1) (y + 1)]
       else if e1 = WITHIN \<or> e2 = WITHIN then
         seq [edgeH this c m (l + 1) (x * 2 + 1) (y * 2 + 0),
              edgeH this c m (l + 1) (x * 2 + 1) (y * 2 + 1)]
       else Inr []))"
  by pat_completeness auto
termination
  by (relation "measure (\<lambda>(this, c, m, l, x, y). length (levels this) - l)")
     (auto simp: evaluate_def split: if_splits)

function edgeV ::
  "('a::linorder) mipmap \<Rightarrow> 'a jsnum \<Rightarrow> nat \<Rightarrow> nat \<Rightarrow> nat \<Rightarrow> nat \<Rightarrow> error + event list" where
  "edgeV this c m l x y =
    (case evaluate this c m l x y of Inl err \<Rightarrow> Inl err | Inr e1 \<Rightarrow>
     (case evaluate this c m l x (y + 1) of Inl err \<Rightarrow> Inl err | Inr e2 \<Rightarrow>
       if e1 = ABOVE \<and> e2 = BELOW then Inr [Line l x (y + 1) (x + 1) (y + 1)]
       else if e2 = ABOVE \<and> e1 = BELOW then Inr [Line l (x + 1) (y + 1) x (y + 1)]
       else if e1 = WITHIN \<or> e2 = WITHIN then
         seq [edgeV this c m (l + 1) (x * 2 + 0) (y * 2 + 1),
              edgeV this c m (l + 1) (x * 2 + 1) (y * 2 + 1)]
       else Inr []))"
  by pat_completeness auto
termination
  by (relation "measure (\<lambda>(this, c, m, l, x, y). length (levels this) - l)")
     (auto simp: evaluate_def split: if_splits)

function node ::
  "('a::linorder) mipmap \<Rightarrow> 'a jsnum \<Rightarrow> nat \<Rightarrow> nat \<Rightarrow> nat \<Rightarrow> nat \<Rightarrow> error + event list" where
  "node this c m l x y =
    (case evaluate this c m l x y of Inl err \<Rightarrow> Inl err | Inr e \<Rightarrow>
       if e = WITHIN then
         seq [node this c m (l + 1) (x * 2 + 0) (y * 2 + 0),
              node this c m (l + 1) (x * 2 + 1) (y * 2 + 0),
              node this c m (l + 1) (x * 2 + 0) (y * 2 + 1),
              node this c m (l + 1) (x * 2 + 1) (y * 2 + 1),
              edgeH this c m (l + 1) (x * 2 + 0) (y * 2 + 0),
              edgeV this c m (l + 1) (x * 2 + 0) (y * 2 + 0),
              edgeH this c m (l + 1) (x * 2 + 0) (y * 2 + 1),
              edgeV this c m (l + 1) (x * 2 + 1) (y * 2 + 0)]
       else Inr [Leaf l x y e])"
  by pat_completeness auto
termination
  by (relation "measure (\<lambda>(this, c, m, l, x, y). length (levels this) - l)")
     (auto simp: evaluate_def split: if_splits)

declare edgeH.simps [simp del] edgeV.simps [simp del] node.simps [simp del]

definition evaluateContour ::
  "('a::linorder) mipmap \<Rightarrow> 'a jsnum \<Rightarrow> nat option \<Rightarrow> error + event list" where
  "evaluateContour this contourLevel maxMipmapLevel =
    node this contourLevel (effectiveMax this maxMipmapLevel) 0 0 0"

section \<open>Stitching the segments into lines and rings\<close>

type_synonym point = "nat \<times> nat"

record segment =
  start :: point
  endp :: point

text \<open>
  The \<open>addLine\<close> callback of \<open>contour\<close>: the segment in units of the finest grid.
  \<open>contour\<close> passes no \<open>addNode\<close>, so a leaf adds nothing.
\<close>

fun addLine :: "'a mipmap \<Rightarrow> event \<Rightarrow> segment list" where
  "addLine this (Line l x1 y1 x2 y2) =
    (let scale = scale (levels this ! l)
     in [\<lparr> start = (scale * x1, scale * y1), endp = (scale * x2, scale * y2) \<rparr>])"
| "addLine this (Leaf l x y e) = []"

text \<open>An arbitrary function to use a 2D point as a Map key.\<close>

fun key :: "point \<Rightarrow> nat" where
  "key (x, y) = x + y * 65536"

text \<open>
  A JavaScript \<open>Map\<close> keeps its entries in insertion order: \<open>set\<close> on a key that is
  present replaces the value in place, on a new key it appends; \<open>delete\<close> removes the
  entry. The values are references to arrays, so an entry holds the address of the array
  in \<open>heap\<close>: \<open>a === b\<close> compares addresses, and \<open>push\<close> and \<open>unshift\<close> change the
  array every holder of the address sees.
\<close>

type_synonym jsmap = "(nat \<times> nat) list"

definition map_get :: "jsmap \<Rightarrow> nat \<Rightarrow> nat option" where
  "map_get m k = map_of m k"

fun map_set :: "jsmap \<Rightarrow> nat \<Rightarrow> nat \<Rightarrow> jsmap" where
  "map_set [] k v = [(k, v)]"
| "map_set ((k', v') # m) k v = (if k' = k then (k, v) # m else (k', v') # map_set m k v)"

definition map_delete :: "jsmap \<Rightarrow> nat \<Rightarrow> jsmap" where
  "map_delete m k = filter (\<lambda>kv. fst kv \<noteq> k) m"

record stitch =
  heap :: "point list list"
  fragmentStart :: jsmap
  fragmentEnd :: jsmap
  rings :: "nat list"
  console :: "(nat \<times> nat) list"

definition stitch_init :: stitch where
  "stitch_init = \<lparr> heap = [], fragmentStart = [], fragmentEnd = [], rings = [], console = [] \<rparr>"

text \<open>
  The body of \<open>segments.forEach\<close>, without the size check at its end. A new array
  (\<open>a.concat(b)\<close>, \<open>[start, end]\<close>) gets the next free address.
\<close>

definition join_step :: "stitch \<Rightarrow> segment \<Rightarrow> stitch" where
  "join_step st sg =
    (case (map_get (fragmentEnd st) (key (start sg)), map_get (fragmentStart st) (key (endp sg))) of
       (Some a, Some b) \<Rightarrow>
         (let st = st\<lparr> fragmentEnd := map_delete (fragmentEnd st) (key (start sg)) \<rparr>;
              st = st\<lparr> fragmentStart := map_delete (fragmentStart st) (key (endp sg)) \<rparr>
          in if a = b then
               (let st = st\<lparr> heap := (heap st)[a := heap st ! a @ [endp sg]] \<rparr>
                in st\<lparr> rings := rings st @ [a] \<rparr>)
             else
               (let c = length (heap st);
                    st = st\<lparr> heap := heap st @ [heap st ! a @ heap st ! b] \<rparr>;
                    st = st\<lparr> fragmentStart := map_set (fragmentStart st) (key (heap st ! c ! 0)) c \<rparr>
                in st\<lparr> fragmentEnd :=
                       map_set (fragmentEnd st) (key (heap st ! c ! (length (heap st ! c) - 1))) c \<rparr>))
     | (Some a, None) \<Rightarrow>
         (let st = st\<lparr> fragmentEnd := map_delete (fragmentEnd st) (key (start sg)) \<rparr>;
              st = st\<lparr> heap := (heap st)[a := heap st ! a @ [endp sg]] \<rparr>
          in st\<lparr> fragmentEnd := map_set (fragmentEnd st) (key (endp sg)) a \<rparr>)
     | (None, Some b) \<Rightarrow>
         (let st = st\<lparr> fragmentStart := map_delete (fragmentStart st) (key (endp sg)) \<rparr>;
              st = st\<lparr> heap := (heap st)[b := start sg # heap st ! b] \<rparr>
          in st\<lparr> fragmentStart := map_set (fragmentStart st) (key (start sg)) b \<rparr>)
     | (None, None) \<Rightarrow>
         (let c = length (heap st);
              st = st\<lparr> heap := heap st @ [[start sg, endp sg]] \<rparr>;
              st = st\<lparr> fragmentStart := map_set (fragmentStart st) (key (start sg)) c \<rparr>
          in st\<lparr> fragmentEnd := map_set (fragmentEnd st) (key (endp sg)) c \<rparr>))"

text \<open>
  The whole body: after the join, \<open>console.error\<close> reports the two sizes when they
  differ.
\<close>

definition stitch_step :: "stitch \<Rightarrow> segment \<Rightarrow> stitch" where
  "stitch_step st sg =
    (let st = join_step st sg
     in if length (fragmentStart st) \<noteq> length (fragmentEnd st)
        then st\<lparr> console := console st @ [(length (fragmentStart st), length (fragmentEnd st))] \<rparr>
        else st)"

definition stitchAll :: "segment list \<Rightarrow> stitch" where
  "stitchAll segments = foldl stitch_step stitch_init segments"

text \<open>
  The segments of a contour level, as \<open>contour\<close> hands them to the stitching loop:
  collected by \<open>addLine\<close> and sorted by the key of their start. \<open>Array.prototype.sort\<close>
  is stable (ECMAScript 2019), as is \<open>sort_key\<close>.
\<close>

definition segmentsOf :: "'a mipmap \<Rightarrow> event list \<Rightarrow> segment list" where
  "segmentsOf this evs = sort_key (\<lambda>sg. key (start sg)) (concat (map (addLine this) evs))"

text \<open>Closed rings and any unclosed line strings: \<open>[...rings, ...fragmentStart.values()]\<close>.\<close>

definition ringsOf :: "stitch \<Rightarrow> point list list" where
  "ringsOf st = map (\<lambda>a. heap st ! a) (rings st)"

definition openLinesOf :: "stitch \<Rightarrow> point list list" where
  "openLinesOf st = map (\<lambda>kv. heap st ! snd kv) (fragmentStart st)"

section \<open>Smoothing\<close>

text \<open>
  Smoothing computes with the coordinates in doubles. The coordinates \<open>scale * x\<close> of a
  stitched line are whole numbers, which a double holds exactly (they are far below
  \<open>2^53\<close>).
\<close>

type_synonym jspoint = "rat jsnum \<times> rat jsnum"

definition conv :: "point list \<Rightarrow> jspoint list" where
  "conv l = map (\<lambda>(x, y). (Fin (of_nat x), Fin (of_nat y))) l"


text \<open>
  \<open>pointAt\<close>: the index wraps around a loop and is clamped on an open line. The index
  \<open>i + line.length\<close> is not negative where \<open>smooth\<close> calls it (there
  \<open>kernelWidth \<le> line.length\<close>), so \<open>%\<close> is \<open>mod\<close>.
\<close>

definition pointAt :: "bool \<Rightarrow> jspoint list \<Rightarrow> int \<Rightarrow> jspoint" where
  "pointAt isLoop line i =
    (if isLoop then line ! nat ((i + int (length line)) mod int (length line))
     else line ! nat (min (max i 0) (int (length line) - 1)))"

text \<open>One cycle of the \<open>for\<close> loop of \<open>smooth\<close>.\<close>

definition smooth_cycle :: "(rat \<Rightarrow> rat jsnum) \<Rightarrow> bool \<Rightarrow> nat \<Rightarrow> jspoint list \<Rightarrow> jspoint list" where
  "smooth_cycle rnd isLoop kernelWidth line =
    (let sc = js_div rnd (Fin 1) (Fin (of_nat (kernelWidth * 2)));
         p = (if isLoop
              then foldl (\<lambda>(px, py) i. (js_add rnd px (fst (line ! i)), js_add rnd py (snd (line ! i))))
                     (Fin 0, Fin 0) [length line - kernelWidth..<length line]
              else (js_mul rnd (fst (line ! 0)) (Fin (of_nat kernelWidth)),
                    js_mul rnd (snd (line ! 0)) (Fin (of_nat kernelWidth))));
         p = foldl (\<lambda>(px, py) i. (js_add rnd px (fst (line ! i)), js_add rnd py (snd (line ! i))))
               p [0..<kernelWidth];
         (res, p) = foldl (\<lambda>(res, (px, py)) i.
                       (res[i := (js_mul rnd px sc, js_mul rnd py sc)],
                        (js_add rnd px (js_sub rnd (fst (pointAt isLoop line (int i + int kernelWidth)))
                                                  (fst (pointAt isLoop line (int i - int kernelWidth)))),
                         js_add rnd py (js_sub rnd (snd (pointAt isLoop line (int i + int kernelWidth)))
                                                  (snd (pointAt isLoop line (int i - int kernelWidth)))))))
                     (line, p) [0..<length line]
     in if isLoop then res[length res - 1 := res ! 0] else res)"

text \<open>
  \<open>smooth\<close>: \<open>line[0][0]\<close> of an empty line throws, and so does \<open>line[i][0]\<close> in the
  first cycle when the kernel is wider than the line.
\<close>

definition smooth :: "(rat \<Rightarrow> rat jsnum) \<Rightarrow> jspoint list \<Rightarrow> nat \<Rightarrow> nat \<Rightarrow> error + jspoint list" where
  "smooth rnd line kernelWidth cycles =
    (if line = [] then Inl TypeError
     else
       (let isLoop = (js_eq (fst (line ! 0)) (fst (line ! (length line - 1)))
                      \<and> js_eq (snd (line ! 0)) (snd (line ! (length line - 1))))
        in if 0 < cycles \<and> length line < kernelWidth then Inl TypeError
           else Inr ((smooth_cycle rnd isLoop kernelWidth ^^ cycles) line)))"

section \<open>The methods of the class\<close>

record opts =
  maxMipmapLevel :: "nat option"
  smoothKernelWidth :: nat
  smoothCycles :: nat
  minPoints :: nat

definition default_opts :: opts where
  "default_opts = \<lparr> maxMipmapLevel = None, smoothKernelWidth = 2, smoothCycles = 2, minPoints = 0 \<rparr>"

fun mapE :: "('x \<Rightarrow> error + 'y) \<Rightarrow> 'x list \<Rightarrow> error + 'y list" where
  "mapE f [] = Inr []"
| "mapE f (x # xs) =
    (case f x of Inl e \<Rightarrow> Inl e
     | Inr y \<Rightarrow> (case mapE f xs of Inl e \<Rightarrow> Inl e | Inr ys \<Rightarrow> Inr (y # ys)))"

text \<open>The lines of \<open>contour\<close> before smoothing: rings first, then the open lines, filtered.\<close>

definition stitched :: "('a::linorder) mipmap \<Rightarrow> opts \<Rightarrow> event list \<Rightarrow> point list list" where
  "stitched this os evs =
    (let st = stitchAll (segmentsOf this evs)
     in filter (\<lambda>l. length l \<ge> minPoints os \<and> length l \<ge> smoothKernelWidth os * 2)
          (ringsOf st @ openLinesOf st))"

definition contour ::
  "(rat \<Rightarrow> rat jsnum) \<Rightarrow> ('a::linorder) mipmap \<Rightarrow> 'a jsnum \<Rightarrow> opts \<Rightarrow> error + jspoint list list" where
  "contour rnd this level os =
    (case evaluateContour this level (maxMipmapLevel os) of
       Inl e \<Rightarrow> Inl e
     | Inr evs \<Rightarrow>
         mapE (\<lambda>l. smooth rnd (conv l) (smoothKernelWidth os) (smoothCycles os))
           (stitched this os evs))"

text \<open>\<open>min()\<close> and \<open>max()\<close>: the root cell. An object without levels has no \<open>levels[0]\<close>.\<close>

definition mmin :: "'a mipmap \<Rightarrow> error + 'a jsnum" where
  "mmin this = (case levels this of [] \<Rightarrow> Inl TypeError | l0 # _ \<Rightarrow> Inr (get (min_arr l0) 0))"

definition mmax :: "'a mipmap \<Rightarrow> error + 'a jsnum" where
  "mmax this = (case levels this of [] \<Rightarrow> Inl TypeError | l0 # _ \<Rightarrow> Inr (get (max_arr l0) 0))"

section \<open>Contour levels for an interval\<close>

text \<open>
  \<open>intervals\<close> computes with the samples: a division, \<open>Math.ceil\<close>, a multiplication
  and repeated additions of doubles, each rounded by \<open>rnd\<close>.
\<close>

text \<open>
  The \<open>while\<close> loop of \<open>intervals\<close>. An array has at most \<open>2^32 - 1\<close> elements: the
  \<open>push\<close> onto an array of that length throws \<open>RangeError: Invalid array length\<close>. So
  the loop ends also when \<open>level\<close> stops growing (an engine may give up on a shorter
  array already).
\<close>

function intervals_loop ::
  "(rat \<Rightarrow> rat jsnum) \<Rightarrow> rat jsnum \<Rightarrow> rat jsnum \<Rightarrow> rat jsnum \<Rightarrow> rat jsnum list \<Rightarrow> error + rat jsnum list" where
  "intervals_loop rnd mx interval level lvls =
    (if js_lt level mx
     then (if length lvls < 4294967295
           then intervals_loop rnd mx interval (js_add rnd level interval) (lvls @ [level])
           else Inl RangeError)
     else Inr lvls)"
  by pat_completeness auto
termination
  by (relation "measure (\<lambda>(rnd, mx, interval, level, lvls). 4294967295 - length lvls)") auto

declare intervals_loop.simps [simp del]

definition intervals ::
  "(rat \<Rightarrow> rat jsnum) \<Rightarrow> rat mipmap \<Rightarrow> rat jsnum \<Rightarrow> error + rat jsnum list" where
  "intervals rnd this interval =
    (if js_le interval (Fin 0) then Inl InvalidArgument
     else
       (case mmin this of Inl e \<Rightarrow> Inl e | Inr mn \<Rightarrow>
       (case mmax this of Inl e \<Rightarrow> Inl e | Inr mx \<Rightarrow>
          intervals_loop rnd mx interval (js_mul rnd (js_ceil (js_div rnd mn interval)) interval) [])))"

section \<open>The objects of a call of \<open>contour\<close>\<close>

text \<open>
  What a call writes, and where. The store holds the objects that are reached through a
  reference and can be written through it: the arrays of samples, the level objects and
  the \<open>levels\<close> array of a pyramid, the fragments that the stitching loop builds
  (\<open>a.push(end)\<close> and \<open>b.unshift(start)\<close> write the array that a map entry refers to), and
  the arrays \<open>res\<close> of \<open>smooth\<close>. An address is an index of the store; a new object gets
  the next one. The arrays \<open>segments\<close> and \<open>rings\<close> and the two maps are created by the
  call and referred to by its local variables only: they stay values.
\<close>

datatype obj =
    Float32Array "rat jsnum list"
  | LevelObj nat nat nat nat nat
  | LevelList "nat list"
  | Fragment "point list"
  | Smoothed "jspoint list"

type_synonym store = "obj list"

text \<open>
  Reading a pyramid out of the store: \<open>this.levels\<close> is at the address \<open>this\<close>, a level
  object \<open>{ min, max, width, height, scale }\<close> holds the addresses of its two arrays.
  \<open>None\<close> when there is no pyramid at \<open>this\<close>.
\<close>

definition floats :: "store \<Rightarrow> nat \<Rightarrow> rat jsnum list option" where
  "floats \<sigma> a =
    (if a < length \<sigma> then (case \<sigma> ! a of Float32Array v \<Rightarrow> Some v | _ \<Rightarrow> None) else None)"

definition load_level :: "store \<Rightarrow> nat \<Rightarrow> rat level option" where
  "load_level \<sigma> a =
    (if a < length \<sigma> then
       (case \<sigma> ! a of
          LevelObj mn mx w h s \<Rightarrow>
            (case (floats \<sigma> mn, floats \<sigma> mx) of
               (Some vmin, Some vmax) \<Rightarrow>
                 Some \<lparr> min_arr = vmin, max_arr = vmax, width = w, height = h, scale = s \<rparr>
             | _ \<Rightarrow> None)
        | _ \<Rightarrow> None)
     else None)"

fun load_levels :: "store \<Rightarrow> nat list \<Rightarrow> rat level list option" where
  "load_levels \<sigma> [] = Some []"
| "load_levels \<sigma> (a # as) =
    (case (load_level \<sigma> a, load_levels \<sigma> as) of
       (Some l, Some ls) \<Rightarrow> Some (l # ls)
     | _ \<Rightarrow> None)"

definition load :: "store \<Rightarrow> nat \<Rightarrow> rat mipmap option" where
  "load \<sigma> this =
    (if this < length \<sigma> then
       (case \<sigma> ! this of
          LevelList as \<Rightarrow> (case load_levels \<sigma> as of Some ls \<Rightarrow> Some \<lparr> levels = ls \<rparr> | None \<Rightarrow> None)
        | _ \<Rightarrow> None)
     else None)"

text \<open>The points of the fragment at an address.\<close>

definition frag :: "store \<Rightarrow> nat \<Rightarrow> point list" where
  "frag \<sigma> a = (if a < length \<sigma> then (case \<sigma> ! a of Fragment ps \<Rightarrow> ps | _ \<Rightarrow> []) else [])"

text \<open>
  The stitching loop on the store: \<open>fragmentStart\<close>, \<open>fragmentEnd\<close> and \<open>rings\<close> hold
  addresses, \<open>objects\<close> is the store.
\<close>

record call =
  objects :: store
  frag_start :: jsmap
  frag_end :: jsmap
  ring_addrs :: "nat list"
  messages :: "(nat \<times> nat) list"

definition join_step_st :: "call \<Rightarrow> segment \<Rightarrow> call" where
  "join_step_st st sg =
    (case (map_get (frag_end st) (key (start sg)), map_get (frag_start st) (key (endp sg))) of
       (Some a, Some b) \<Rightarrow>
         (let st = st\<lparr> frag_end := map_delete (frag_end st) (key (start sg)) \<rparr>;
              st = st\<lparr> frag_start := map_delete (frag_start st) (key (endp sg)) \<rparr>
          in if a = b then
               (let st = st\<lparr> objects := (objects st)[a := Fragment (frag (objects st) a @ [endp sg])] \<rparr>
                in st\<lparr> ring_addrs := ring_addrs st @ [a] \<rparr>)
             else
               (let c = length (objects st);
                    st = st\<lparr> objects := objects st @ [Fragment (frag (objects st) a @ frag (objects st) b)] \<rparr>;
                    st = st\<lparr> frag_start := map_set (frag_start st) (key (frag (objects st) c ! 0)) c \<rparr>
                in st\<lparr> frag_end :=
                       map_set (frag_end st)
                         (key (frag (objects st) c ! (length (frag (objects st) c) - 1))) c \<rparr>))
     | (Some a, None) \<Rightarrow>
         (let st = st\<lparr> frag_end := map_delete (frag_end st) (key (start sg)) \<rparr>;
              st = st\<lparr> objects := (objects st)[a := Fragment (frag (objects st) a @ [endp sg])] \<rparr>
          in st\<lparr> frag_end := map_set (frag_end st) (key (endp sg)) a \<rparr>)
     | (None, Some b) \<Rightarrow>
         (let st = st\<lparr> frag_start := map_delete (frag_start st) (key (endp sg)) \<rparr>;
              st = st\<lparr> objects := (objects st)[b := Fragment (start sg # frag (objects st) b)] \<rparr>
          in st\<lparr> frag_start := map_set (frag_start st) (key (start sg)) b \<rparr>)
     | (None, None) \<Rightarrow>
         (let c = length (objects st);
              st = st\<lparr> objects := objects st @ [Fragment [start sg, endp sg]] \<rparr>;
              st = st\<lparr> frag_start := map_set (frag_start st) (key (start sg)) c \<rparr>
          in st\<lparr> frag_end := map_set (frag_end st) (key (endp sg)) c \<rparr>))"

definition stitch_step_st :: "call \<Rightarrow> segment \<Rightarrow> call" where
  "stitch_step_st st sg =
    (let st = join_step_st st sg
     in if length (frag_start st) \<noteq> length (frag_end st)
        then st\<lparr> messages := messages st @ [(length (frag_start st), length (frag_end st))] \<rparr>
        else st)"

definition stitchAll_st :: "store \<Rightarrow> segment list \<Rightarrow> call" where
  "stitchAll_st \<sigma> segments =
    foldl stitch_step_st
      \<lparr> objects = \<sigma>, frag_start = [], frag_end = [], ring_addrs = [], messages = [] \<rparr> segments"

text \<open>The points of the line at an address, as numbers.\<close>

definition points_of :: "store \<Rightarrow> nat \<Rightarrow> jspoint list" where
  "points_of \<sigma> a =
    (if a < length \<sigma> then
       (case \<sigma> ! a of Fragment ps \<Rightarrow> conv ps | Smoothed ps \<Rightarrow> ps | _ \<Rightarrow> [])
     else [])"

text \<open>
  \<open>smooth\<close> on the store: each cycle makes the copy \<open>res = line.slice()\<close>, fills it, and
  goes on with it (\<open>line = res\<close>); the array it was given is only read. The exceptions
  are thrown before the first copy.
\<close>

fun smooth_cycles_st ::
  "(rat \<Rightarrow> rat jsnum) \<Rightarrow> bool \<Rightarrow> nat \<Rightarrow> nat \<Rightarrow> store \<Rightarrow> nat \<Rightarrow> nat \<times> store" where
  "smooth_cycles_st rnd isLoop kernelWidth 0 \<sigma> line = (line, \<sigma>)"
| "smooth_cycles_st rnd isLoop kernelWidth (Suc n) \<sigma> line =
    smooth_cycles_st rnd isLoop kernelWidth n
      (\<sigma> @ [Smoothed (smooth_cycle rnd isLoop kernelWidth (points_of \<sigma> line))]) (length \<sigma>)"

definition smooth_st ::
  "(rat \<Rightarrow> rat jsnum) \<Rightarrow> store \<Rightarrow> nat \<Rightarrow> nat \<Rightarrow> nat \<Rightarrow> (error + nat) \<times> store" where
  "smooth_st rnd \<sigma> line kernelWidth cycles =
    (let ps = points_of \<sigma> line
     in if ps = [] then (Inl TypeError, \<sigma>)
        else
          (let isLoop = (js_eq (fst (ps ! 0)) (fst (ps ! (length ps - 1)))
                         \<and> js_eq (snd (ps ! 0)) (snd (ps ! (length ps - 1))))
           in if 0 < cycles \<and> length ps < kernelWidth then (Inl TypeError, \<sigma>)
              else (case smooth_cycles_st rnd isLoop kernelWidth cycles \<sigma> line of
                      (a, \<sigma>') \<Rightarrow> (Inr a, \<sigma>'))))"

text \<open>\<open>.map(l => smooth(l, smoothOpts))\<close>: the first exception ends the call.\<close>

fun smooth_all ::
  "(rat \<Rightarrow> rat jsnum) \<Rightarrow> nat \<Rightarrow> nat \<Rightarrow> store \<Rightarrow> nat list \<Rightarrow> (error + nat list) \<times> store" where
  "smooth_all rnd kernelWidth cycles \<sigma> [] = (Inr [], \<sigma>)"
| "smooth_all rnd kernelWidth cycles \<sigma> (l # ls) =
    (case smooth_st rnd \<sigma> l kernelWidth cycles of
       (Inl e, \<sigma>') \<Rightarrow> (Inl e, \<sigma>')
     | (Inr a, \<sigma>') \<Rightarrow>
         (case smooth_all rnd kernelWidth cycles \<sigma>' ls of
            (Inl e, \<sigma>'') \<Rightarrow> (Inl e, \<sigma>'')
          | (Inr as, \<sigma>'') \<Rightarrow> (Inr (a # as), \<sigma>'')))"

text \<open>
  \<open>contour\<close> on the store. The walker and the \<open>addLine\<close> callback read the pyramid
  (\<open>this.levels[l]\<close>, its fields, \<open>ml.min[i]\<close>, \<open>ml.max[i]\<close>) and assign to no object; the
  stitching loop and \<open>smooth\<close> write as above. The call returns the addresses of the
  lines, or throws, and leaves a store.
\<close>

definition contour_st ::
  "(rat \<Rightarrow> rat jsnum) \<Rightarrow> store \<Rightarrow> nat \<Rightarrow> rat jsnum \<Rightarrow> opts \<Rightarrow> (error + nat list) \<times> store" where
  "contour_st rnd \<sigma> this level os =
    (case load \<sigma> this of
       None \<Rightarrow> (Inl TypeError, \<sigma>)
     | Some m \<Rightarrow>
         (case evaluateContour m level (maxMipmapLevel os) of
            Inl e \<Rightarrow> (Inl e, \<sigma>)
          | Inr evs \<Rightarrow>
              (let st = stitchAll_st \<sigma> (segmentsOf m evs);
                   ls = filter (\<lambda>l. length (frag (objects st) l) \<ge> minPoints os
                                    \<and> length (frag (objects st) l) \<ge> smoothKernelWidth os * 2)
                          (ring_addrs st @ map snd (frag_start st))
               in smooth_all rnd (smoothKernelWidth os) (smoothCycles os) (objects st) ls)))"

text \<open>What one call of \<open>smooth\<close> returned, read in a store.\<close>

definition returned1 :: "store \<Rightarrow> error + nat \<Rightarrow> error + jspoint list" where
  "returned1 \<sigma> r = (case r of Inl e \<Rightarrow> Inl e | Inr a \<Rightarrow> Inr (points_of \<sigma> a))"

text \<open>What a call returned, read in a store: the lines by their points.\<close>

definition returned :: "store \<Rightarrow> error + nat list \<Rightarrow> error + jspoint list list" where
  "returned \<sigma> r = (case r of Inl e \<Rightarrow> Inl e | Inr as \<Rightarrow> Inr (map (points_of \<sigma>) as))"

section \<open>Notions the properties are stated with\<close>

text \<open>A cell of the pyramid: level, column, row.\<close>

type_synonym cell = "nat \<times> nat \<times> nat"








text \<open>
  The footprint of the cell \<open>(x, y)\<close> of a level of scale \<open>s\<close>: the indices of the
  samples of a \<open>w\<close> by \<open>h\<close> raster under it.
\<close>

definition footprint :: "nat \<Rightarrow> nat \<Rightarrow> nat \<Rightarrow> nat \<Rightarrow> nat \<Rightarrow> nat list" where
  "footprint w h s x y =
    concat (map (\<lambda>j. map (\<lambda>i. j * w + i) [x * s..<min w ((x + 1) * s)]) [y * s..<min h ((y + 1) * s)])"

text \<open>
  The cells directly beneath the cell \<open>(x, y)\<close>, as indices into a finer level of width
  \<open>w\<close> and height \<open>h\<close>: up to four, fewer at an odd right or bottom border.
\<close>

definition children_idx :: "nat \<Rightarrow> nat \<Rightarrow> nat \<Rightarrow> nat \<Rightarrow> nat list" where
  "children_idx w h x y =
    concat (map (\<lambda>j. map (\<lambda>i. j * w + i) [x * 2..<min w (x * 2 + 2)]) [y * 2..<min h (y * 2 + 2)])"

text \<open>The finite values among a list of numbers.\<close>

definition finites :: "'a jsnum list \<Rightarrow> 'a list" where
  "finites vs = concat (map (\<lambda>v. case v of Fin a \<Rightarrow> [a] | _ \<Rightarrow> []) vs)"

text \<open>The level at which a callback is called.\<close>

fun ev_level :: "event \<Rightarrow> nat" where
  "ev_level (Line l x1 y1 x2 y2) = l"
| "ev_level (Leaf l x y e) = l"

text \<open>A run that returns, all of whose callbacks are called at a level of the pyramid.\<close>

definition run_ok :: "'a mipmap \<Rightarrow> error + event list \<Rightarrow> bool" where
  "run_ok this r = (\<exists>evs. r = Inr evs \<and> (\<forall>e \<in> set evs. ev_level e < length (levels this)))"

text \<open>
  One round of the outer loop of \<open>reduceWith\<close>: the cells of row \<open>y\<close> that have two
  columns beneath them, then the cell of an odd last column.
\<close>

definition row_step :: "nat \<Rightarrow> nat \<Rightarrow> (nat \<Rightarrow> nat \<Rightarrow> 'b) \<Rightarrow> (nat \<Rightarrow> 'b) \<Rightarrow> nat \<Rightarrow> 'b list \<Rightarrow> 'b list" where
  "row_step ow w2 g4 g2 y out =
     (if w2 < ow then (fold (\<lambda>x out. out[y * ow + x := g4 y x]) [0..<w2] out)[y * ow + w2 := g2 y]
      else fold (\<lambda>x out. out[y * ow + x := g4 y x]) [0..<w2] out)"

text \<open>Each level of a list is the reduction of the next.\<close>

definition chain :: "rat level list \<Rightarrow> bool" where
  "chain ls = (\<forall>l. Suc l < length ls \<longrightarrow> ls ! l = mipmapReduce (ls ! Suc l))"

text \<open>
  A minimum and a maximum that fit together: beside a finite minimum the maximum is not
  less (or infinite), beside a finite maximum the minimum is not greater (or infinite).
\<close>

definition pair_ok :: "('a::linorder) jsnum \<Rightarrow> 'a jsnum \<Rightarrow> bool" where
  "pair_ok mn mx =
    ((\<forall>a. mn = Fin a \<longrightarrow> mx = PosInf \<or> (\<exists>b. mx = Fin b \<and> a \<le> b))
     \<and> (\<forall>b. mx = Fin b \<longrightarrow> mn = NegInf \<or> (\<exists>a. mn = Fin a \<and> a \<le> b)))"

definition cells_ok :: "('a::linorder) level \<Rightarrow> bool" where
  "cells_ok lv = (\<forall>i. pair_ok (get (min_arr lv) i) (get (max_arr lv) i))"

text \<open>
  A level that summarises a \<open>w\<close> by \<open>h\<close> raster at its scale: it has the cells of the
  raster cut into squares of that scale, and the minimum and the maximum of a cell are
  finite exactly when some sample under the cell is; no minimum is \<open>-Infinity\<close> and no
  maximum \<open>+Infinity\<close>.
\<close>

definition has_finite :: "'a jsnum list \<Rightarrow> nat \<Rightarrow> nat \<Rightarrow> nat \<Rightarrow> nat \<Rightarrow> nat \<Rightarrow> bool" where
  "has_finite raster w h s x y =
    (\<exists>i j. i < w \<and> j < h \<and> i div s = x \<and> j div s = y \<and> isFinite (raster ! (j * w + i)))"

definition summarises :: "'a jsnum list \<Rightarrow> nat \<Rightarrow> nat \<Rightarrow> 'a level \<Rightarrow> bool" where
  "summarises raster w h lv =
    (1 \<le> scale lv
     \<and> width lv = (w + scale lv - 1) div scale lv
     \<and> height lv = (h + scale lv - 1) div scale lv
     \<and> (\<forall>x < width lv. \<forall>y < height lv.
          (isFinite (get (min_arr lv) (y * width lv + x)) \<longleftrightarrow> has_finite raster w h (scale lv) x y)
          \<and> (isFinite (get (max_arr lv) (y * width lv + x)) \<longleftrightarrow> has_finite raster w h (scale lv) x y)
          \<and> get (min_arr lv) (y * width lv + x) \<noteq> NegInf
          \<and> get (max_arr lv) (y * width lv + x) \<noteq> PosInf))"

text \<open>The value of \<open>level\<close> after \<open>k\<close> rounds of the loop of \<open>intervals\<close>.\<close>

definition level_at :: "(rat \<Rightarrow> rat jsnum) \<Rightarrow> rat jsnum \<Rightarrow> rat jsnum \<Rightarrow> nat \<Rightarrow> rat jsnum" where
  "level_at rnd interval level k = ((\<lambda>v. js_add rnd v interval) ^^ k) level"

text \<open>The unit in the last place of a double: the power of two that \<open>double_round\<close> rounds to multiples of.\<close>

definition ulp :: "rat \<Rightarrow> rat" where
  "ulp x = pow2 (max (ilog2 \<bar>x\<bar> - 52) (- 1074))"

text \<open>
  Adding the step to a number that came out of a rounding does not give less than the
  number: so it is when the rounding is monotone and leaves a double as it is.
\<close>

definition never_below :: "(rat \<Rightarrow> rat jsnum) \<Rightarrow> rat \<Rightarrow> bool" where
  "never_below rnd s = (\<forall>x z. rnd z = Fin x \<longrightarrow> \<not> js_lt (rnd (x + s)) (Fin x))"

text \<open>
  No operation of a call of \<open>intervals\<close> loses anything to rounding: the rounded quotient
  \<open>min / step\<close> has the ceiling of the exact one, and the product and the sums of the
  loop, as many as there are levels below the maximum, are exact.
\<close>

definition exact_run :: "(rat \<Rightarrow> rat jsnum) \<Rightarrow> rat \<Rightarrow> rat \<Rightarrow> rat \<Rightarrow> bool" where
  "exact_run rnd mn mx s =
    (let e = of_int \<lceil>mn / s\<rceil> * s
     in (\<exists>q. rnd (mn / s) = Fin q \<and> \<lceil>q\<rceil> = \<lceil>mn / s\<rceil>)
        \<and> rnd (of_int \<lceil>mn / s\<rceil> * s) = Fin e
        \<and> (\<forall>k < nat \<lceil>(mx - e) / s\<rceil>. rnd (e + of_nat k * s + s) = Fin (e + of_nat (Suc k) * s)))"

text \<open>
  A value a \<open>Float32Array\<close> holds: storing it does not change it. A level of such
  values.
\<close>

definition float32 :: "rat jsnum \<Rightarrow> bool" where
  "float32 v = (toFloat32 v = v)"

definition float32_level :: "rat level \<Rightarrow> bool" where
  "float32_level lv = (\<forall>v \<in> set (min_arr lv) \<union> set (max_arr lv). float32 v)"






text \<open>
  The key of a point is its own among the points whose first coordinate is below 65536.
\<close>

definition small :: "point \<Rightarrow> bool" where
  "small p = (fst p < 65536)"

text \<open>
  What the stitching loop keeps true: each map has one entry per key; an entry of
  \<open>fragmentStart\<close> holds a fragment under the key of its first point, an entry of
  \<open>fragmentEnd\<close> holds one under the key of its last point; a ring is closed and no
  map holds it any more; all points are small.
\<close>

definition stitch_inv :: "stitch \<Rightarrow> bool" where
  "stitch_inv st =
    (distinct (map fst (fragmentStart st)) \<and> distinct (map fst (fragmentEnd st))
     \<and> (\<forall>k a. (k, a) \<in> set (fragmentStart st) \<longrightarrow>
            a < length (heap st) \<and> heap st ! a \<noteq> [] \<and> key (hd (heap st ! a)) = k)
     \<and> (\<forall>k a. (k, a) \<in> set (fragmentEnd st) \<longrightarrow>
            a < length (heap st) \<and> heap st ! a \<noteq> [] \<and> key (last (heap st ! a)) = k)
     \<and> (\<forall>a \<in> set (rings st).
            a < length (heap st) \<and> heap st ! a \<noteq> [] \<and> hd (heap st ! a) = last (heap st ! a)
            \<and> a \<notin> snd ` set (fragmentStart st) \<and> a \<notin> snd ` set (fragmentEnd st))
     \<and> (\<forall>ps \<in> set (heap st). \<forall>p \<in> set ps. small p))"

text \<open>
  The state of the stitching loop among the objects of a store: its fragments follow
  the objects that were there, and its addresses count from there.
\<close>

definition shift :: "nat \<Rightarrow> jsmap \<Rightarrow> jsmap" where
  "shift n m = map (\<lambda>(k, a). (k, a + n)) m"

definition lift :: "store \<Rightarrow> stitch \<Rightarrow> call" where
  "lift \<sigma> st =
    \<lparr> objects = \<sigma> @ map Fragment (heap st),
      frag_start = shift (length \<sigma>) (fragmentStart st),
      frag_end = shift (length \<sigma>) (fragmentEnd st),
      ring_addrs = map (\<lambda>a. a + length \<sigma>) (rings st),
      messages = console st \<rparr>"

text \<open>Every address that the loop holds is the address of a fragment.\<close>

definition addrs_ok :: "stitch \<Rightarrow> bool" where
  "addrs_ok st =
    ((\<forall>a \<in> snd ` set (fragmentStart st). a < length (heap st))
     \<and> (\<forall>a \<in> snd ` set (fragmentEnd st). a < length (heap st))
     \<and> (\<forall>a \<in> set (rings st). a < length (heap st)))"

section \<open>Example rasters\<close>

definition gap :: "rat mipmap" where
  "gap = ContourMipmap [NaN, NaN] 2 1"


definition pixel :: "rat mipmap" where
  "pixel = ContourMipmap [Fin 1] 1 1"

definition strip_raster :: "rat jsnum list" where
  "strip_raster = [Fin 1, Fin 9, Fin 1, Fin 9]"

definition strip :: "rat mipmap" where
  "strip = ContourMipmap strip_raster 4 1"

text \<open>
  A 4 by 4 raster with missing samples around its centre, cut by the threshold 5:
  \<^verbatim>\<open>
    9   9  NaN  9
    9  NaN  1  NaN
    1  NaN  9  NaN
    1   1  NaN  1
  \<close>
\<close>

definition nodata_raster :: "rat jsnum list" where
  "nodata_raster =
    [Fin 9, Fin 9, NaN, Fin 9,
     Fin 9, NaN, Fin 1, NaN,
     Fin 1, NaN, Fin 9, NaN,
     Fin 1, Fin 1, NaN, Fin 1]"

definition nodata :: "rat mipmap" where
  "nodata = ContourMipmap nodata_raster 4 4"

text \<open>
  A 3 by 3 raster with a peak in the middle, cut by the threshold 5:
  \<^verbatim>\<open>
    1 1 1
    1 9 1
    1 1 1
  \<close>
\<close>

definition peak_raster :: "rat jsnum list" where
  "peak_raster = [Fin 1, Fin 1, Fin 1, Fin 1, Fin 9, Fin 1, Fin 1, Fin 1, Fin 1]"

definition peak :: "rat mipmap" where
  "peak = ContourMipmap peak_raster 3 3"

text \<open>
  The pyramid of the peak raster as the constructor leaves it: the finest level refers
  to the raster twice.
\<close>

definition peak_store :: store where
  "peak_store =
    [Float32Array peak_raster,
     LevelObj 0 0 3 3 1,
     Float32Array [Fin 1, Fin 1, Fin 1, Fin 1],
     Float32Array [Fin 9, Fin 1, Fin 1, Fin 1],
     LevelObj 2 3 2 2 2,
     Float32Array [Fin 1],
     Float32Array [Fin 9],
     LevelObj 5 6 1 1 4,
     LevelList [7, 4, 1]]"

text \<open>Two samples so large that adding 1 to the smaller one is lost in rounding.\<close>

definition huge :: "rat mipmap" where
  "huge = ContourMipmap [Fin (2 ^ 60), Fin (2 ^ 61)] 2 1"

definition low :: "rat mipmap" where
  "low = ContourMipmap [Fin 0, Fin 3] 2 1"

definition ledge :: "rat mipmap" where
  "ledge = ContourMipmap [Fin 29, Fin (117 / 4)] 2 1"

text \<open>
  A line handed to \<open>addLine\<close> lies on the grid of its level: the level exists, and the
  two columns are at most the width of the level.
\<close>

fun line_in :: "'a mipmap \<Rightarrow> event \<Rightarrow> bool" where
  "line_in this (Line l x1 y1 x2 y2) =
    (l < length (levels this) \<and> x1 \<le> width (levels this ! l) \<and> x2 \<le> width (levels this ! l))"
| "line_in this (Leaf l x y e) = True"

text \<open>
  Two rasters that are not of float32 values: the doubles 0.1 and 0.2, and a sample
  beyond the range of float32.
\<close>

definition tenths :: "rat mipmap" where
  "tenths = ContourMipmap [Fin (3602879701896397 / 36028797018963968),
                           Fin (3602879701896397 / 18014398509481984)] 2 1"

definition steep :: "rat mipmap" where
  "steep = ContourMipmap [Fin (2 ^ 130), Fin 5] 2 1"



section \<open>The example pyramids\<close>

text \<open>Evaluating a rounding at a literal.\<close>

lemma floor_rat_numeral: "\<lfloor>(numeral a / numeral b :: rat)\<rfloor> = numeral a div numeral b"
  using floor_divide_of_int_eq [of "numeral a" "numeral b", where 'a = rat] by simp

lemma ceiling_rat_numeral: "\<lceil>(numeral a / numeral b :: rat)\<rceil> = - ((- numeral a) div numeral b)"
  using floor_divide_of_int_eq [of "- numeral a" "numeral b", where 'a = rat]
  by (simp add: ceiling_def)

lemma bitlen_small: "bitlen 1 = 1" "bitlen 9 = 4"
  by code_simp+

lemma strip_levels:
  "levels strip =
    [\<lparr>min_arr = [Fin 1], max_arr = [Fin 9], width = 1, height = 1, scale = 4\<rparr>,
     \<lparr>min_arr = [Fin 1, Fin 1], max_arr = [Fin 9, Fin 9], width = 2, height = 1, scale = 2\<rparr>,
     \<lparr>min_arr = [Fin 1, Fin 9, Fin 1, Fin 9], max_arr = [Fin 1, Fin 9, Fin 1, Fin 9],
        width = 4, height = 1, scale = 1\<rparr>]"
  by code_simp

section \<open>What reduceWith writes\<close>

lemma fold_upd_length [simp]: "length (fold (\<lambda>x out. out[f x := g x]) xs out) = length out"
  by (induction xs arbitrary: out) simp_all

lemma fold_upd_nth:
  "i < length out \<Longrightarrow>
   fold (\<lambda>x out. out[b + x := g x]) [0..<n] out ! i = (if b \<le> i \<and> i < b + n then g (i - b) else out ! i)"
proof (induction n)
  case 0
  then show ?case by auto
next
  case (Suc n)
  show ?case
  proof (cases "i = b + n")
    case True
    then show ?thesis using Suc.prems by simp
  next
    case False
    then have "(b \<le> i \<and> i < b + Suc n) = (b \<le> i \<and> i < b + n)" by auto
    then show ?thesis using False Suc by simp
  qed
qed

lemma row_step_length [simp]: "length (row_step ow w2 g4 g2 y out) = length out"
  by (simp add: row_step_def)

lemma row_step_nth:
  assumes "i < length out" and "w2 \<le> ow" and "ow \<le> w2 + 1"
  shows "row_step ow w2 g4 g2 y out ! i =
     (if y * ow \<le> i \<and> i < y * ow + ow then (if i - y * ow < w2 then g4 y (i - y * ow) else g2 y)
      else out ! i)"
  using assms by (auto simp: row_step_def fold_upd_nth nth_list_update)

lemma rows_length [simp]: "length (fold (row_step ow w2 g4 g2) ys out) = length out"
  by (induction ys arbitrary: out) simp_all

lemma rows_nth:
  assumes "i < length out" and "w2 \<le> ow" and "ow \<le> w2 + 1" and "0 < ow"
  shows "fold (row_step ow w2 g4 g2) [0..<n] out ! i =
     (if i < n * ow then (if i mod ow < w2 then g4 (i div ow) (i mod ow) else g2 (i div ow))
      else out ! i)"
proof (induction n)
  case 0
  then show ?case by simp
next
  case (Suc n)
  show ?case
  proof (cases "n * ow \<le> i \<and> i < n * ow + ow")
    case True
    then have d: "i div ow = n"
      by (intro div_nat_eqI) (simp_all add: mult.commute)
    then have "i mod ow = i - n * ow"
      by (simp add: modulo_nat_def)
    with d True show ?thesis using assms
      by (simp add: row_step_nth)
  next
    case False
    then show ?thesis using assms Suc
      by (auto simp: row_step_nth)
  qed
qed


lemma upt_two: "[a..<a + 2] = [a, a + 1]" and upt_one: "[a..<a + 1] = [a]"
  by (simp_all add: upt_rec)

lemma children_idx_cases:
  "x * 2 + 2 \<le> w \<Longrightarrow> y * 2 + 2 \<le> h \<Longrightarrow>
     children_idx w h x y = [y * 2 * w + x * 2, y * 2 * w + (x * 2 + 1), (y * 2 + 1) * w + x * 2, (y * 2 + 1) * w + (x * 2 + 1)]"
  "x * 2 + 1 = w \<Longrightarrow> y * 2 + 2 \<le> h \<Longrightarrow>
     children_idx w h x y = [y * 2 * w + x * 2, (y * 2 + 1) * w + x * 2]"
  "x * 2 + 2 \<le> w \<Longrightarrow> y * 2 + 1 = h \<Longrightarrow>
     children_idx w h x y = [y * 2 * w + x * 2, y * 2 * w + (x * 2 + 1)]"
  "x * 2 + 1 = w \<Longrightarrow> y * 2 + 1 = h \<Longrightarrow>
     children_idx w h x y = [y * 2 * w + x * 2]"
proof -
  have a: "x * 2 + 2 \<le> w \<Longrightarrow> [x * 2..<min w (x * 2 + 2)] = [x * 2, x * 2 + 1]" for x w :: nat
    by (simp add: min_def upt_two)
  have b: "x * 2 + 1 = w \<Longrightarrow> [x * 2..<min w (x * 2 + 2)] = [x * 2]" for x w :: nat
    using upt_one [of "x * 2"] by (simp add: min_def)
  show "x * 2 + 2 \<le> w \<Longrightarrow> y * 2 + 2 \<le> h \<Longrightarrow>
     children_idx w h x y = [y * 2 * w + x * 2, y * 2 * w + (x * 2 + 1), (y * 2 + 1) * w + x * 2, (y * 2 + 1) * w + (x * 2 + 1)]"
    unfolding children_idx_def by (simp only: a) simp
  show "x * 2 + 1 = w \<Longrightarrow> y * 2 + 2 \<le> h \<Longrightarrow>
     children_idx w h x y = [y * 2 * w + x * 2, (y * 2 + 1) * w + x * 2]"
    unfolding children_idx_def by (simp only: a b) simp
  show "x * 2 + 2 \<le> w \<Longrightarrow> y * 2 + 1 = h \<Longrightarrow>
     children_idx w h x y = [y * 2 * w + x * 2, y * 2 * w + (x * 2 + 1)]"
    unfolding children_idx_def by (simp only: a b) simp
  show "x * 2 + 1 = w \<Longrightarrow> y * 2 + 1 = h \<Longrightarrow>
     children_idx w h x y = [y * 2 * w + x * 2]"
    unfolding children_idx_def by (simp only: a b) simp
qed

lemma reduceWith_rows:
  "reduceWith w h data reduce =
    (let ow = (w + 1) div 2; oh = (h + 1) div 2;
         out1 = fold (row_step ow (w div 2)
                   (\<lambda>y x. toFloat32 (reduce [get data ((y * 2 + 0) * w + (x * 2 + 0)), get data ((y * 2 + 0) * w + (x * 2 + 1)),
                                get data ((y * 2 + 1) * w + (x * 2 + 0)), get data ((y * 2 + 1) * w + (x * 2 + 1))]))
                   (\<lambda>y. toFloat32 (reduce [get data ((y * 2 + 0) * w + (w div 2 * 2 + 0)),
                                get data ((y * 2 + 1) * w + (w div 2 * 2 + 0))])))
                  [0..<h div 2] (replicate (ow * oh) (Fin 0));
         out2 = (if h div 2 < oh
                 then fold (\<lambda>x out. out[h div 2 * ow + x := toFloat32 (reduce
                               [get data ((h div 2 * 2 + 0) * w + (x * 2 + 0)), get data ((h div 2 * 2 + 0) * w + (x * 2 + 1))])])
                        [0..<w div 2] out1
                 else out1)
     in if w div 2 < ow \<and> h div 2 < oh
        then out2[h div 2 * ow + w div 2 := toFloat32 (reduce [get data ((h div 2 * 2 + 0) * w + (w div 2 * 2 + 0))])]
        else out2)"
proof -
  have r: "row_step ow w2 g4 g2 = (\<lambda>y out.
      if w2 < ow then (fold (\<lambda>x out. out[y * ow + x := g4 y x]) [0..<w2] out)[y * ow + w2 := g2 y]
      else fold (\<lambda>x out. out[y * ow + x := g4 y x]) [0..<w2] out)" for ow w2 and g4 :: "nat \<Rightarrow> nat \<Rightarrow> rat jsnum" and g2
    by (intro ext) (simp add: row_step_def)
  show ?thesis
    unfolding reduceWith_def Let_def r ..
qed


lemma reduceWith_length: "length (reduceWith w h data reduce) = ((w + 1) div 2) * ((h + 1) div 2)"
  by (simp add: reduceWith_rows Let_def)

lemma reduceWith_nth:
  assumes x: "x < (w + 1) div 2" and y: "y < (h + 1) div 2"
  shows "reduceWith w h data reduce ! (y * ((w + 1) div 2) + x) = toFloat32 (reduce (map (get data) (children_idx w h x y)))"
proof -
  define ow oh w2 h2 where "ow = (w + 1) div 2" and "oh = (h + 1) div 2" and "w2 = w div 2" and "h2 = h div 2"
  define i where "i = y * ow + x"
  define g4 where "g4 = (\<lambda>y x. toFloat32 (reduce [get data ((y * 2 + 0) * w + (x * 2 + 0)), get data ((y * 2 + 0) * w + (x * 2 + 1)),
                                get data ((y * 2 + 1) * w + (x * 2 + 0)), get data ((y * 2 + 1) * w + (x * 2 + 1))]))"
  define g2 where "g2 = (\<lambda>y. toFloat32 (reduce [get data ((y * 2 + 0) * w + (w2 * 2 + 0)),
                                get data ((y * 2 + 1) * w + (w2 * 2 + 0))]))"
  define g2' where "g2' = (\<lambda>x. toFloat32 (reduce [get data ((h2 * 2 + 0) * w + (x * 2 + 0)), get data ((h2 * 2 + 0) * w + (x * 2 + 1))]))"
  define g1 where "g1 = toFloat32 (reduce [get data ((h2 * 2 + 0) * w + (w2 * 2 + 0))])"
  define out0 :: "rat jsnum list" where "out0 = replicate (ow * oh) (Fin 0)"
  define out1 where "out1 = fold (row_step ow w2 g4 g2) [0..<h2] out0"
  define out2 where "out2 = (if h2 < oh then fold (\<lambda>x out. out[h2 * ow + x := g2' x]) [0..<w2] out1 else out1)"
  have rw: "reduceWith w h data reduce = (if w2 < ow \<and> h2 < oh then out2[h2 * ow + w2 := g1] else out2)"
    unfolding reduceWith_rows Let_def out2_def out1_def out0_def g1_def g2'_def g2_def g4_def
      ow_def oh_def w2_def h2_def ..
  have ow: "w2 \<le> ow" "ow \<le> w2 + 1" "0 < ow" and xo: "x < ow" and yo: "y < oh" and oh: "h2 \<le> oh" "oh \<le> h2 + 1"
    using x y unfolding ow_def oh_def w2_def h2_def by linarith+
  have "y * ow + ow \<le> oh * ow"
    using yo by (metis Suc_leI mult_Suc mult_le_mono1 add.commute)
  then have il: "i < ow * oh"
    using xo unfolding i_def by (simp add: mult.commute)
  have idiv: "i div ow = y" and imod: "i mod ow = x"
    using xo unfolding i_def by simp_all
  have l0: "length out0 = ow * oh" by (simp add: out0_def)
  have l1: "length out1 = ow * oh" by (simp add: out1_def l0)
  have l2: "length out2 = ow * oh" by (simp add: out2_def l1)
  have n1: "out1 ! i = (if i < h2 * ow then (if x < w2 then g4 y x else g2 y) else out0 ! i)"
    unfolding out1_def using rows_nth [of i out0 w2 ow g4 g2 h2] il ow l0 by (simp add: idiv imod)
  have ylt: "i < h2 * ow \<longleftrightarrow> y < h2"
  proof
    assume "i < h2 * ow"
    then have "i div ow < h2" using ow(3) by (simp add: less_mult_imp_div_less)
    then show "y < h2" by (simp add: idiv)
  next
    assume "y < h2"
    then have "y * ow + ow \<le> h2 * ow"
      by (metis Suc_leI mult_Suc mult_le_mono1 add.commute)
    then show "i < h2 * ow" using xo by (simp add: i_def)
  qed
  show ?thesis
  proof (cases "y < h2")
    case True
    then have ih: "i < h2 * ow" by (simp add: ylt)
    then have "out2 ! i = out1 ! i"
      using il l1 by (simp add: out2_def fold_upd_nth)
    moreover have "i \<noteq> h2 * ow + w2" using ih by simp
    ultimately have v: "reduceWith w h data reduce ! i = (if x < w2 then g4 y x else g2 y)"
      using n1 ih by (simp add: rw)
    from True have yh: "y * 2 + 2 \<le> h" unfolding h2_def by linarith
    show ?thesis
    proof (cases "x < w2")
      case True
      then have "x * 2 + 2 \<le> w" unfolding w2_def by linarith
      then show ?thesis using v True yh
        by (simp add: children_idx_cases(1) g4_def i_def ow_def)
    next
      case False
      then have xw: "x = w2" using xo ow by simp
      then have "x * 2 + 1 = w" using xo unfolding w2_def ow_def by linarith
      then show ?thesis using v False yh xw
        by (simp add: children_idx_cases(2) g2_def i_def ow_def)
    qed
  next
    case False
    then have yh2: "y = h2" and hlt: "h2 < oh" using yo oh by simp_all
    then have yh: "y * 2 + 1 = h" using yo unfolding h2_def oh_def by linarith
    have ige: "h2 * ow \<le> i" "i - h2 * ow = x" by (simp_all add: i_def yh2)
    have ix: "i < h2 * ow + w2 \<longleftrightarrow> x < w2" by (simp add: i_def yh2)
    have o2: "out2 ! i = (if x < w2 then g2' x else out1 ! i)"
      using hlt il l1 ige by (simp add: out2_def fold_upd_nth ix)
    show ?thesis
    proof (cases "x < w2")
      case True
      then have "x * 2 + 2 \<le> w" unfolding w2_def by linarith
      moreover have "i \<noteq> h2 * ow + w2" using True by (simp add: i_def yh2)
      ultimately show ?thesis using o2 True yh
        by (simp add: rw children_idx_cases(3) g2'_def i_def ow_def yh2)
    next
      case False
      then have xw: "x = w2" using xo ow by simp
      then have xw1: "x * 2 + 1 = w" and wlt: "w2 < ow" using xo unfolding w2_def ow_def by linarith+
      have "i = h2 * ow + w2" by (simp add: i_def yh2 xw)
      then show ?thesis using wlt hlt il l2 yh xw1
        by (simp add: rw children_idx_cases(4) g1_def ow_def yh2 xw)
    qed
  qed
qed

section \<open>The two reducers\<close>

lemma js_lt_trans: "js_lt a b \<Longrightarrow> js_lt b c \<Longrightarrow> js_lt a c"
  by (cases a; cases b; cases c) auto

lemma js_lt_total: "\<not> js_lt v r \<Longrightarrow> js_lt v r' \<Longrightarrow> r \<noteq> NaN \<Longrightarrow> js_lt r r'"
  by (cases v; cases r; cases r') auto

lemma js_lt_irrefl [simp]: "\<not> js_lt a a"
  by (cases a) auto

lemma min_fold_mem: "foldl (\<lambda>r v. if js_lt v r then v else r) r vs \<in> insert r (set vs)"
  by (induction vs arbitrary: r) auto

lemma min_fold_notNaN: "r \<noteq> NaN \<Longrightarrow> foldl (\<lambda>r v. if js_lt v r then v else r) r vs \<noteq> NaN"
proof (induction vs arbitrary: r)
  case (Cons v vs)
  have "js_lt v r \<Longrightarrow> v \<noteq> NaN" by (cases v) auto
  with Cons show ?case by auto
qed simp

lemma min_fold_lower:
  "r \<noteq> NaN \<Longrightarrow> u \<in> insert r (set vs) \<Longrightarrow> \<not> js_lt u (foldl (\<lambda>r v. if js_lt v r then v else r) r vs)"
proof (induction vs arbitrary: r u)
  case Nil
  then show ?case by simp
next
  case (Cons v vs)
  let ?f = "\<lambda>r v. if js_lt v r then v else r"
  let ?r' = "foldl ?f (?f r v) vs"
  have nn: "?f r v \<noteq> NaN" using Cons.prems(1) by (cases v) auto
  have top: "\<not> js_lt (?f r v) ?r'" using Cons.IH [OF nn, of "?f r v"] by simp
  from Cons.prems(2) consider "u = r" | "u = v" | "u \<in> set vs" by auto
  then show ?case
  proof cases
    case 1
    show ?thesis
    proof (cases "js_lt v r")
      case True
      with top have "\<not> js_lt v ?r'" by simp
      with True have "\<not> js_lt r ?r'" using js_lt_trans by blast
      with 1 show ?thesis by simp
    next
      case False
      with top 1 show ?thesis by simp
    qed
  next
    case 2
    show ?thesis
    proof (cases "js_lt v r")
      case True
      with top 2 show ?thesis by simp
    next
      case False
      with top have "\<not> js_lt r ?r'" by simp
      with False Cons.prems(1) have "\<not> js_lt v ?r'" using js_lt_total by blast
      with 2 show ?thesis by simp
    qed
  next
    case 3
    then show ?thesis using Cons.IH [OF nn, of u] by simp
  qed
qed

lemma max_fold_mem: "foldl (\<lambda>r v. if js_lt r v then v else r) r vs \<in> insert r (set vs)"
  by (induction vs arbitrary: r) auto

lemma max_fold_notNaN: "r \<noteq> NaN \<Longrightarrow> foldl (\<lambda>r v. if js_lt r v then v else r) r vs \<noteq> NaN"
proof (induction vs arbitrary: r)
  case (Cons v vs)
  have "js_lt r v \<Longrightarrow> v \<noteq> NaN" by (cases v; cases r) auto
  with Cons show ?case by auto
qed simp

lemma js_lt_total': "\<not> js_lt r v \<Longrightarrow> js_lt r' v \<Longrightarrow> r \<noteq> NaN \<Longrightarrow> js_lt r' r"
  by (cases v; cases r; cases r') auto

lemma max_fold_upper:
  "r \<noteq> NaN \<Longrightarrow> u \<in> insert r (set vs) \<Longrightarrow> \<not> js_lt (foldl (\<lambda>r v. if js_lt r v then v else r) r vs) u"
proof (induction vs arbitrary: r u)
  case Nil
  then show ?case by simp
next
  case (Cons v vs)
  let ?f = "\<lambda>r v. if js_lt r v then v else r"
  let ?r' = "foldl ?f (?f r v) vs"
  have nn: "?f r v \<noteq> NaN" using Cons.prems(1) by (cases v; cases r) auto
  have top: "\<not> js_lt ?r' (?f r v)" using Cons.IH [OF nn, of "?f r v"] by simp
  from Cons.prems(2) consider "u = r" | "u = v" | "u \<in> set vs" by auto
  then show ?case
  proof cases
    case 1
    show ?thesis
    proof (cases "js_lt r v")
      case True
      with top have "\<not> js_lt ?r' v" by simp
      with True have "\<not> js_lt ?r' r" using js_lt_trans by blast
      with 1 show ?thesis by simp
    next
      case False
      with top 1 show ?thesis by simp
    qed
  next
    case 2
    show ?thesis
    proof (cases "js_lt r v")
      case True
      with top 2 show ?thesis by simp
    next
      case False
      with top have "\<not> js_lt ?r' r" by simp
      with False Cons.prems(1) have "\<not> js_lt ?r' v" using js_lt_total' by blast
      with 2 show ?thesis by simp
    qed
  next
    case 3
    then show ?thesis using Cons.IH [OF nn, of u] by simp
  qed
qed

lemma minFinite_props:
  "minFinite vs \<noteq> NaN" "minFinite vs \<in> insert PosInf (set vs)" "u \<in> set vs \<Longrightarrow> \<not> js_lt u (minFinite vs)"
  unfolding minFinite_def
  using min_fold_notNaN [of PosInf vs] min_fold_mem [of PosInf vs] min_fold_lower [of PosInf u vs]
  by simp_all

lemma maxFinite_props:
  "maxFinite vs \<noteq> NaN" "maxFinite vs \<in> insert NegInf (set vs)" "u \<in> set vs \<Longrightarrow> \<not> js_lt (maxFinite vs) u"
  unfolding maxFinite_def
  using max_fold_notNaN [of NegInf vs] max_fold_mem [of NegInf vs] max_fold_upper [of NegInf u vs]
  by simp_all

lemma finites_set: "set (finites vs) = {a. Fin a \<in> set vs}"
  by (induction vs) (auto simp: finites_def split: jsnum.splits)

lemma minFinite_Fin:
  assumes "minFinite vs = Fin a"
  shows "a = Min (set (finites vs))" and "Fin a \<in> set vs" and "NegInf \<notin> set vs"
proof -
  from minFinite_props(2) [of vs] assms show m: "Fin a \<in> set vs" by auto
  have "\<And>b. b \<in> set (finites vs) \<Longrightarrow> a \<le> b"
    using minFinite_props(3) [of _ vs] assms by (fastforce simp: finites_set)
  moreover have "a \<in> set (finites vs)" using m by (simp add: finites_set)
  ultimately show "a = Min (set (finites vs))"
    by (intro Min_eqI [symmetric]) auto
  show "NegInf \<notin> set vs"
    using minFinite_props(3) [of NegInf vs] assms by auto
qed

lemma maxFinite_Fin:
  assumes "maxFinite vs = Fin a"
  shows "a = Max (set (finites vs))" and "Fin a \<in> set vs" and "PosInf \<notin> set vs"
proof -
  from maxFinite_props(2) [of vs] assms show m: "Fin a \<in> set vs" by auto
  have "\<And>b. b \<in> set (finites vs) \<Longrightarrow> b \<le> a"
    using maxFinite_props(3) [of _ vs] assms by (fastforce simp: finites_set)
  moreover have "a \<in> set (finites vs)" using m by (simp add: finites_set)
  ultimately show "a = Max (set (finites vs))"
    by (intro Max_eqI [symmetric]) auto
  show "PosInf \<notin> set vs"
    using maxFinite_props(3) [of PosInf vs] assms by auto
qed

section \<open>The levels of a pyramid\<close>

lemma build_last: "build (l0 # ls) \<noteq> [] \<and> last (build (l0 # ls)) = last (l0 # ls)"
proof (induction "l0 # ls" arbitrary: l0 ls rule: build.induct)
  case (2 l0 ls)
  show ?case
  proof (cases "1 < width l0 \<or> 1 < height l0")
    case True
    then have "build (l0 # ls) = build (mipmapReduce l0 # l0 # ls)"
      by (subst build.simps) simp
    with "2.hyps" [OF True] show ?thesis by simp
  next
    case False
    then have "build (l0 # ls) = l0 # ls"
      by (subst build.simps) simp
    then show ?thesis by simp
  qed
qed

lemma finest_level:
  "levels (ContourMipmap raster w h) \<noteq> []
   \<and> min_arr (last (levels (ContourMipmap raster w h))) = raster
   \<and> max_arr (last (levels (ContourMipmap raster w h))) = raster"
  using build_last [of "\<lparr> min_arr = raster, max_arr = raster, width = w, height = h, scale = 1 \<rparr>" "[]"]
  by (simp add: ContourMipmap_def)

lemma chain_build: "chain (l0 # ls) \<Longrightarrow> chain (build (l0 # ls))"
proof (induction "l0 # ls" arbitrary: l0 ls rule: build.induct)
  case (2 l0 ls)
  show ?case
  proof (cases "1 < width l0 \<or> 1 < height l0")
    case True
    have "chain (mipmapReduce l0 # l0 # ls)"
      unfolding chain_def
    proof (intro allI impI)
      fix l assume "Suc l < length (mipmapReduce l0 # l0 # ls)"
      then show "(mipmapReduce l0 # l0 # ls) ! l = mipmapReduce ((mipmapReduce l0 # l0 # ls) ! Suc l)"
        using "2.prems" unfolding chain_def by (cases l) auto
    qed
    moreover have "build (l0 # ls) = build (mipmapReduce l0 # l0 # ls)"
      using True by (subst build.simps) simp
    ultimately show ?thesis using "2.hyps" [OF True] by simp
  next
    case False
    then have "build (l0 # ls) = l0 # ls"
      by (subst build.simps) simp
    then show ?thesis using "2.prems" by simp
  qed
qed

lemma levels_chain: "chain (levels (ContourMipmap raster w h))"
  unfolding ContourMipmap_def by (simp, rule chain_build) (simp add: chain_def)

lemma mipmapReduce_cell_rounded:
  assumes "x < (width c + 1) div 2" and "y < (height c + 1) div 2"
  shows "get (min_arr (mipmapReduce c)) (y * width (mipmapReduce c) + x) =
           toFloat32 (minFinite (map (get (min_arr c)) (children_idx (width c) (height c) x y)))"
    and "get (max_arr (mipmapReduce c)) (y * width (mipmapReduce c) + x) =
           toFloat32 (maxFinite (map (get (max_arr c)) (children_idx (width c) (height c) x y)))"
proof -
  let ?ow = "(width c + 1) div 2" and ?oh = "(height c + 1) div 2"
  have "y * ?ow + ?ow \<le> ?oh * ?ow"
    using assms(2) by (metis Suc_leI mult_Suc mult_le_mono1 add.commute)
  then have il: "y * ?ow + x < ?ow * ?oh"
    using assms(1) by (simp add: mult.commute)
  show "get (min_arr (mipmapReduce c)) (y * width (mipmapReduce c) + x) =
           toFloat32 (minFinite (map (get (min_arr c)) (children_idx (width c) (height c) x y)))"
    using il reduceWith_nth [OF assms, of "min_arr c" minFinite]
    by (simp add: mipmapReduce_def get_def reduceWith_length)
  show "get (max_arr (mipmapReduce c)) (y * width (mipmapReduce c) + x) =
           toFloat32 (maxFinite (map (get (max_arr c)) (children_idx (width c) (height c) x y)))"
    using il reduceWith_nth [OF assms, of "max_arr c" maxFinite]
    by (simp add: mipmapReduce_def get_def reduceWith_length)
qed

lemma float32_get:
  assumes "float32_level lv"
  shows "float32 (get (min_arr lv) i)" and "float32 (get (max_arr lv) i)"
  using assms by (simp_all add: float32_level_def get_def float32_def)

lemma float32_minFinite: "\<forall>v \<in> set vs. float32 v \<Longrightarrow> toFloat32 (minFinite vs) = minFinite vs"
  using minFinite_props(2) [of vs] by (auto simp: float32_def)

lemma float32_maxFinite: "\<forall>v \<in> set vs. float32 v \<Longrightarrow> toFloat32 (maxFinite vs) = maxFinite vs"
  using maxFinite_props(2) [of vs] by (auto simp: float32_def)

text \<open>Over a level of float32 values the stores of \<open>reduceWith\<close> round nothing.\<close>

lemma mipmapReduce_cell:
  assumes "float32_level c" and "x < (width c + 1) div 2" and "y < (height c + 1) div 2"
  shows "get (min_arr (mipmapReduce c)) (y * width (mipmapReduce c) + x) =
           minFinite (map (get (min_arr c)) (children_idx (width c) (height c) x y))"
    and "get (max_arr (mipmapReduce c)) (y * width (mipmapReduce c) + x) =
           maxFinite (map (get (max_arr c)) (children_idx (width c) (height c) x y))"
proof -
  have "\<forall>v \<in> set (map (get (min_arr c)) (children_idx (width c) (height c) x y)). float32 v"
    "\<forall>v \<in> set (map (get (max_arr c)) (children_idx (width c) (height c) x y)). float32 v"
    using float32_get [OF assms(1)] by simp_all
  then show "get (min_arr (mipmapReduce c)) (y * width (mipmapReduce c) + x) =
           minFinite (map (get (min_arr c)) (children_idx (width c) (height c) x y))"
    and "get (max_arr (mipmapReduce c)) (y * width (mipmapReduce c) + x) =
           maxFinite (map (get (max_arr c)) (children_idx (width c) (height c) x y))"
    using mipmapReduce_cell_rounded [OF assms(2,3)]
    by (simp_all add: float32_minFinite float32_maxFinite)
qed

lemma float32_level_reduce:
  assumes "float32_level c"
  shows "float32_level (mipmapReduce c)"
proof -
  let ?ow = "(width c + 1) div 2" and ?oh = "(height c + 1) div 2"
  have cell: "float32 (get (min_arr (mipmapReduce c)) i) \<and> float32 (get (max_arr (mipmapReduce c)) i)" for i
  proof (cases "i < ?ow * ?oh")
    case False
    then show ?thesis
      by (simp add: get_def mipmapReduce_def reduceWith_length float32_def)
  next
    case True
    then have ow: "0 < ?ow" by (cases "?ow = 0") auto
    have x: "i mod ?ow < ?ow" using ow by simp
    have y: "i div ?ow < ?oh" using True ow by (simp add: less_mult_imp_div_less mult.commute)
    have i: "i = i div ?ow * width (mipmapReduce c) + i mod ?ow"
      using div_mult_mod_eq [of i ?ow] by (simp add: mipmapReduce_def)
    let ?cs = "children_idx (width c) (height c) (i mod ?ow) (i div ?ow)"
    have mn: "get (min_arr (mipmapReduce c)) i = minFinite (map (get (min_arr c)) ?cs)"
      and mx: "get (max_arr (mipmapReduce c)) i = maxFinite (map (get (max_arr c)) ?cs)"
      using mipmapReduce_cell [OF assms x y] i by simp_all
    have "\<forall>v \<in> set (map (get (min_arr c)) ?cs). float32 v"
      "\<forall>v \<in> set (map (get (max_arr c)) ?cs). float32 v"
      using float32_get [OF assms] by simp_all
    then have "toFloat32 (minFinite (map (get (min_arr c)) ?cs)) = minFinite (map (get (min_arr c)) ?cs)"
      "toFloat32 (maxFinite (map (get (max_arr c)) ?cs)) = maxFinite (map (get (max_arr c)) ?cs)"
      by (simp_all add: float32_minFinite float32_maxFinite)
    then show ?thesis unfolding mn mx by (simp add: float32_def)
  qed
  show ?thesis
    unfolding float32_level_def
  proof
    fix v
    assume "v \<in> set (min_arr (mipmapReduce c)) \<union> set (max_arr (mipmapReduce c))"
    then obtain i where "(i < length (min_arr (mipmapReduce c)) \<and> v = min_arr (mipmapReduce c) ! i)
        \<or> (i < length (max_arr (mipmapReduce c)) \<and> v = max_arr (mipmapReduce c) ! i)"
      by (auto simp: in_set_conv_nth)
    then have "v = get (min_arr (mipmapReduce c)) i \<or> v = get (max_arr (mipmapReduce c)) i"
      by (auto simp: get_def)
    with cell [of i] show "float32 v" by auto
  qed
qed

lemma chain_all:
  assumes "chain ls" and "ls \<noteq> []" and "P (last ls)" and step: "\<And>c. P c \<Longrightarrow> P (mipmapReduce c)"
  shows "l < length ls \<Longrightarrow> P (ls ! l)"
proof (induction "length ls - 1 - l" arbitrary: l)
  case 0
  then have "l = length ls - 1" by simp
  then show ?case using assms(2,3) by (simp add: last_conv_nth)
next
  case (Suc k)
  then have "k = length ls - 1 - Suc l" and s: "Suc l < length ls" by simp_all
  then have "P (ls ! Suc l)" using Suc.hyps(1) by blast
  moreover have "ls ! l = mipmapReduce (ls ! Suc l)"
    using assms(1) s unfolding chain_def by blast
  ultimately show ?case by (simp add: step)
qed

lemma build_depth:
  "1 \<le> width l0 \<Longrightarrow> 1 \<le> height l0 \<Longrightarrow>
   length (build (l0 # ls)) = ceillog2 (max (width l0) (height l0)) + 1 + length ls
   \<and> width (build (l0 # ls) ! 0) = 1 \<and> height (build (l0 # ls) ! 0) = 1"
proof (induction "l0 # ls" arbitrary: l0 ls rule: build.induct)
  case (2 l0 ls)
  show ?case
  proof (cases "1 < width l0 \<or> 1 < height l0")
    case True
    let ?r = "mipmapReduce l0"
    have wr: "width ?r = (width l0 + 1) div 2" and hr: "height ?r = (height l0 + 1) div 2"
      by (simp_all add: mipmapReduce_def)
    have pos: "1 \<le> width ?r" "1 \<le> height ?r"
      using "2.prems" unfolding wr hr by linarith+
    have mx: "max (width ?r) (height ?r) = (max (width l0) (height l0) + 1) div 2"
      unfolding wr hr by (simp add: max_def) linarith
    have "ceillog2 (max (width l0) (height l0)) = 1 + ceillog2 (max (width ?r) (height ?r))"
      using True by (subst ceillog2_rec) (auto simp: mx)
    moreover have "build (l0 # ls) = build (?r # l0 # ls)"
      using True by (subst build.simps) simp
    ultimately show ?thesis
      using "2.hyps" [OF True pos] by simp
  next
    case False
    then have "build (l0 # ls) = l0 # ls"
      by (subst build.simps) simp
    moreover from False "2.prems" have "width l0 = 1" "height l0 = 1" by auto
    ultimately show ?thesis by simp
  qed
qed

text \<open>Every level of the pyramid of a raster of float32 values holds float32 values.\<close>

lemma levels_float32:
  assumes "\<forall>v \<in> set raster. float32 v" and "l < length (levels (ContourMipmap raster w h))"
  shows "float32_level (levels (ContourMipmap raster w h) ! l)"
proof -
  let ?b = "\<lparr> min_arr = raster, max_arr = raster, width = w, height = h, scale = 1 \<rparr>"
  let ?ls = "levels (ContourMipmap raster w h)"
  have ne: "?ls \<noteq> []" using finest_level [of raster w h] by simp
  have "last ?ls = ?b"
    using build_last [of ?b "[]"] by (simp add: ContourMipmap_def)
  then have "float32_level (last ?ls)"
    using assms(1) by (simp add: float32_level_def)
  from chain_all [of ?ls float32_level, OF levels_chain ne this float32_level_reduce assms(2)]
  show ?thesis .
qed

text \<open>Halving a grid, and the cells beneath a cell.\<close>

lemma ceil_div_half:
  fixes s w :: nat
  assumes "1 \<le> s"
  shows "((w + s - 1) div s + 1) div 2 = (w + s * 2 - 1) div (s * 2)"
proof -
  have "(w + s - 1) div s + 1 = (w + s - 1 + s) div s"
    using assms div_add_self2 [of s "w + s - 1"] by simp
  also have "w + s - 1 + s = w + s * 2 - 1" using assms by simp
  finally show ?thesis by (simp add: div_mult2_eq)
qed

lemma div_lt_ceil:
  fixes s w i :: nat
  assumes "1 \<le> s" and "i < w"
  shows "i div s < (w + s - 1) div s"
proof -
  have "i \<le> w - 1" using assms(2) by simp
  then have "i div s \<le> (w - 1) div s" by (rule div_le_mono)
  also have "(w - 1) div s < (w - 1) div s + 1" by simp
  also have "(w - 1) div s + 1 = (w - 1 + s) div s"
    using assms(1) div_add_self2 [of s "w - 1"] by simp
  also have "w - 1 + s = w + s - 1" using assms by simp
  finally show ?thesis .
qed

lemma set_grid:
  "set (concat (map (\<lambda>j. map (f j) xs) ys)) = {f j i | i j. i \<in> set xs \<and> j \<in> set ys}"
  by auto

lemma children_idx_mem:
  "k \<in> set (children_idx wc hc x y) \<longleftrightarrow>
   (\<exists>cx cy. k = cy * wc + cx \<and> x * 2 \<le> cx \<and> cx < wc \<and> cx < x * 2 + 2
            \<and> y * 2 \<le> cy \<and> cy < hc \<and> cy < y * 2 + 2)"
  unfolding children_idx_def set_grid by auto

section \<open>What the stitching loop keeps true\<close>

lemma key_inj: "small p \<Longrightarrow> small q \<Longrightarrow> key p = key q \<Longrightarrow> p = q"
proof -
  assume a: "small p" "small q" "key p = key q"
  obtain x y x' y' where p: "p = (x, y)" and q: "q = (x', y')" by (cases p, cases q) blast
  from a have lt: "x < 65536" "x' < 65536" and e: "x + y * 65536 = x' + y' * 65536"
    by (simp_all add: small_def p q)
  from e have "(x + y * 65536) mod 65536 = (x' + y' * 65536) mod 65536" by simp
  with lt have "x = x'" by simp
  with e have "y = y'" by simp
  with \<open>x = x'\<close> show ?thesis by (simp add: p q)
qed

lemma map_get_Some: "distinct (map fst m) \<Longrightarrow> map_get m k = Some a \<longleftrightarrow> (k, a) \<in> set m"
  by (simp add: map_get_def)

lemma map_get_None: "map_get m k = None \<longleftrightarrow> k \<notin> fst ` set m"
  by (simp add: map_get_def map_of_eq_None_iff)

lemma map_delete_set: "set (map_delete m k) = {kv \<in> set m. fst kv \<noteq> k}"
  by (auto simp: map_delete_def)

lemma map_delete_distinct: "distinct (map fst m) \<Longrightarrow> distinct (map fst (map_delete m k))"
  by (simp add: map_delete_def distinct_map_filter)

lemma map_set_keys: "fst ` set (map_set m k v) = insert k (fst ` set m)"
proof (induction m)
  case (Cons kv m)
  obtain k' v' where kv: "kv = (k', v')" by (cases kv)
  show ?case
  proof (cases "k' = k")
    case True
    then show ?thesis by (simp add: kv)
  next
    case False
    then show ?thesis using Cons by (simp add: kv insert_commute)
  qed
qed simp

lemma map_set_distinct: "distinct (map fst m) \<Longrightarrow> distinct (map fst (map_set m k v))"
proof (induction m)
  case (Cons kv m)
  then show ?case
    using map_set_keys [of m k v] by (cases kv) auto
qed simp

lemma map_set_set:
  "distinct (map fst m) \<Longrightarrow> set (map_set m k v) = insert (k, v) {kv \<in> set m. fst kv \<noteq> k}"
proof (induction m)
  case (Cons kv m)
  then show ?case
    by (cases kv) (auto simp: rev_image_eqI)
qed simp

lemma map_set_length: "length (map_set m k v) = (if k \<in> fst ` set m then length m else Suc (length m))"
proof (induction m)
  case (Cons kv m)
  obtain k' v' where kv: "kv = (k', v')" by (cases kv)
  show ?case
  proof (cases "k' = k")
    case True
    then show ?thesis by (simp add: kv)
  next
    case False
    then show ?thesis using Cons by (simp add: kv)
  qed
qed simp


lemma stitch_invI:
  assumes "distinct (map fst (fragmentStart st))" and "distinct (map fst (fragmentEnd st))"
    and "\<And>k a. (k, a) \<in> set (fragmentStart st) \<Longrightarrow>
            a < length (heap st) \<and> heap st ! a \<noteq> [] \<and> key (hd (heap st ! a)) = k"
    and "\<And>k a. (k, a) \<in> set (fragmentEnd st) \<Longrightarrow>
            a < length (heap st) \<and> heap st ! a \<noteq> [] \<and> key (last (heap st ! a)) = k"
    and "\<And>a. a \<in> set (rings st) \<Longrightarrow>
            a < length (heap st) \<and> heap st ! a \<noteq> [] \<and> hd (heap st ! a) = last (heap st ! a)
            \<and> a \<notin> snd ` set (fragmentStart st) \<and> a \<notin> snd ` set (fragmentEnd st)"
    and "\<And>ps p. ps \<in> set (heap st) \<Longrightarrow> p \<in> set ps \<Longrightarrow> small p"
  shows "stitch_inv st"
  using assms unfolding stitch_inv_def by blast

lemma stitch_invD:
  assumes "stitch_inv st"
  shows "distinct (map fst (fragmentStart st))" and "distinct (map fst (fragmentEnd st))"
    and "\<And>k a. (k, a) \<in> set (fragmentStart st) \<Longrightarrow>
            a < length (heap st) \<and> heap st ! a \<noteq> [] \<and> key (hd (heap st ! a)) = k"
    and "\<And>k a. (k, a) \<in> set (fragmentEnd st) \<Longrightarrow>
            a < length (heap st) \<and> heap st ! a \<noteq> [] \<and> key (last (heap st ! a)) = k"
    and "\<And>a. a \<in> set (rings st) \<Longrightarrow>
            a < length (heap st) \<and> heap st ! a \<noteq> [] \<and> hd (heap st ! a) = last (heap st ! a)
            \<and> a \<notin> snd ` set (fragmentStart st) \<and> a \<notin> snd ` set (fragmentEnd st)"
    and "\<And>ps p. ps \<in> set (heap st) \<Longrightarrow> p \<in> set ps \<Longrightarrow> small p"
  using assms unfolding stitch_inv_def by blast+

lemma join_ring:
  assumes inv: "stitch_inv st" and sm: "small (endp sg)"
    and a: "(key (start sg), a) \<in> set (fragmentEnd st)" and b: "(key (endp sg), a) \<in> set (fragmentStart st)"
  shows "stitch_inv (st\<lparr> fragmentEnd := map_delete (fragmentEnd st) (key (start sg)),
                         fragmentStart := map_delete (fragmentStart st) (key (endp sg)),
                         heap := (heap st)[a := heap st ! a @ [endp sg]],
                         rings := rings st @ [a] \<rparr>)" (is "stitch_inv ?st'")
proof (rule stitch_invI)
  note D = stitch_invD [OF inv]
  from D(3) [OF b] have al: "a < length (heap st)" and ne: "heap st ! a \<noteq> []"
    and hk: "key (hd (heap st ! a)) = key (endp sg)" by simp_all
  from D(4) [OF a] have lk: "key (last (heap st ! a)) = key (start sg)" by simp
  have noS: "(k, a) \<notin> set (fragmentStart ?st')" for k
  proof
    assume "(k, a) \<in> set (fragmentStart ?st')"
    then have "(k, a) \<in> set (fragmentStart st)" "k \<noteq> key (endp sg)" by (simp_all add: map_delete_set)
    with D(3) [of k a] hk show False by simp
  qed
  have noE: "(k, a) \<notin> set (fragmentEnd ?st')" for k
  proof
    assume "(k, a) \<in> set (fragmentEnd ?st')"
    then have "(k, a) \<in> set (fragmentEnd st)" "k \<noteq> key (start sg)" by (simp_all add: map_delete_set)
    with D(4) [of k a] lk show False by simp
  qed
  show "distinct (map fst (fragmentStart ?st'))" "distinct (map fst (fragmentEnd ?st'))"
    using D(1,2) by (simp_all add: map_delete_distinct)
  show "a' < length (heap ?st') \<and> heap ?st' ! a' \<noteq> [] \<and> key (hd (heap ?st' ! a')) = k"
    if "(k, a') \<in> set (fragmentStart ?st')" for k a'
  proof -
    from that noS have "a' \<noteq> a" by blast
    moreover from that have "(k, a') \<in> set (fragmentStart st)" by (simp add: map_delete_set)
    ultimately show ?thesis using D(3) [of k a'] by simp
  qed
  show "a' < length (heap ?st') \<and> heap ?st' ! a' \<noteq> [] \<and> key (last (heap ?st' ! a')) = k"
    if "(k, a') \<in> set (fragmentEnd ?st')" for k a'
  proof -
    from that noE have "a' \<noteq> a" by blast
    moreover from that have "(k, a') \<in> set (fragmentEnd st)" by (simp add: map_delete_set)
    ultimately show ?thesis using D(4) [of k a'] by simp
  qed
  show "r < length (heap ?st') \<and> heap ?st' ! r \<noteq> [] \<and> hd (heap ?st' ! r) = last (heap ?st' ! r)
        \<and> r \<notin> snd ` set (fragmentStart ?st') \<and> r \<notin> snd ` set (fragmentEnd ?st')"
    if "r \<in> set (rings ?st')" for r
  proof (cases "r = a")
    case True
    have "small (hd (heap st ! a))" using D(6) [of "heap st ! a" "hd (heap st ! a)"] al ne by simp
    with sm hk have "hd (heap st ! a) = endp sg" by (intro key_inj)
    then show ?thesis using True al ne noS noE by (auto simp: image_iff)
  next
    case False
    with that have r: "r \<in> set (rings st)" by simp
    from D(5) [OF r] False show ?thesis
      by (auto simp: map_delete_set image_iff)
  qed
  show "small p" if "ps \<in> set (heap ?st')" "p \<in> set ps" for ps p
  proof -
    from that(1) have "ps \<in> set (heap st) \<or> ps = heap st ! a @ [endp sg]"
      using set_update_subset_insert [of "heap st" a] by auto
    moreover have "heap st ! a \<in> set (heap st)" using al by simp
    ultimately show ?thesis using that(2) D(6) [of _ p] sm by auto
  qed
qed


lemma join_concat:
  assumes inv: "stitch_inv st"
    and a: "(key (start sg), a) \<in> set (fragmentEnd st)" and b: "(key (endp sg), b) \<in> set (fragmentStart st)"
  shows "stitch_inv (st\<lparr> fragmentEnd := map_set (map_delete (fragmentEnd st) (key (start sg)))
                                          (key (last (heap st ! a @ heap st ! b))) (length (heap st)),
                         fragmentStart := map_set (map_delete (fragmentStart st) (key (endp sg)))
                                          (key (hd (heap st ! a @ heap st ! b))) (length (heap st)),
                         heap := heap st @ [heap st ! a @ heap st ! b] \<rparr>)" (is "stitch_inv ?st'")
proof (rule stitch_invI)
  note D = stitch_invD [OF inv]
  from D(4) [OF a] have al: "a < length (heap st)" and ane: "heap st ! a \<noteq> []" by simp_all
  from D(3) [OF b] have bl: "b < length (heap st)" and bne: "heap st ! b \<noteq> []" by simp_all
  let ?c = "heap st ! a @ heap st ! b"
  have dS: "distinct (map fst (map_delete (fragmentStart st) (key (endp sg))))"
    and dE: "distinct (map fst (map_delete (fragmentEnd st) (key (start sg))))"
    using D(1,2) by (simp_all add: map_delete_distinct)
  show "distinct (map fst (fragmentStart ?st'))" "distinct (map fst (fragmentEnd ?st'))"
    using dS dE by (simp_all add: map_set_distinct)
  have S': "(k, a') \<in> set (fragmentStart ?st') \<Longrightarrow>
        (k, a') = (key (hd ?c), length (heap st)) \<or> (k, a') \<in> set (fragmentStart st)" for k a'
    by (auto simp: map_set_set [OF dS] map_delete_set)
  have E': "(k, a') \<in> set (fragmentEnd ?st') \<Longrightarrow>
        (k, a') = (key (last ?c), length (heap st)) \<or> (k, a') \<in> set (fragmentEnd st)" for k a'
    by (auto simp: map_set_set [OF dE] map_delete_set)
  show "a' < length (heap ?st') \<and> heap ?st' ! a' \<noteq> [] \<and> key (hd (heap ?st' ! a')) = k"
    if "(k, a') \<in> set (fragmentStart ?st')" for k a'
    using S' [OF that] D(3) [of k a'] ane by (auto simp: nth_append)
  show "a' < length (heap ?st') \<and> heap ?st' ! a' \<noteq> [] \<and> key (last (heap ?st' ! a')) = k"
    if "(k, a') \<in> set (fragmentEnd ?st')" for k a'
    using E' [OF that] D(4) [of k a'] bne by (auto simp: nth_append)
  show "r < length (heap ?st') \<and> heap ?st' ! r \<noteq> [] \<and> hd (heap ?st' ! r) = last (heap ?st' ! r)
        \<and> r \<notin> snd ` set (fragmentStart ?st') \<and> r \<notin> snd ` set (fragmentEnd ?st')"
    if "r \<in> set (rings ?st')" for r
  proof -
    from that have r: "r \<in> set (rings st)" by simp
    note R = D(5) [OF r]
    have "r \<notin> snd ` set (fragmentStart ?st')"
    proof
      assume "r \<in> snd ` set (fragmentStart ?st')"
      then obtain k where "(k, r) \<in> set (fragmentStart ?st')" by force
      from S' [OF this] R show False by (auto simp: image_iff)
    qed
    moreover have "r \<notin> snd ` set (fragmentEnd ?st')"
    proof
      assume "r \<in> snd ` set (fragmentEnd ?st')"
      then obtain k where "(k, r) \<in> set (fragmentEnd ?st')" by force
      from E' [OF this] R show False by (auto simp: image_iff)
    qed
    ultimately show ?thesis using R by (simp add: nth_append)
  qed
  show "small p" if "ps \<in> set (heap ?st')" "p \<in> set ps" for ps p
  proof -
    have "heap st ! a \<in> set (heap st)" "heap st ! b \<in> set (heap st)" using al bl by simp_all
    then show ?thesis using that D(6) [of _ p] by auto
  qed
qed

lemma join_push:
  assumes inv: "stitch_inv st" and sm: "small (endp sg)"
    and a: "(key (start sg), a) \<in> set (fragmentEnd st)"
  shows "stitch_inv (st\<lparr> fragmentEnd := map_set (map_delete (fragmentEnd st) (key (start sg))) (key (endp sg)) a,
                         heap := (heap st)[a := heap st ! a @ [endp sg]] \<rparr>)" (is "stitch_inv ?st'")
proof (rule stitch_invI)
  note D = stitch_invD [OF inv]
  from D(4) [OF a] have al: "a < length (heap st)" and ane: "heap st ! a \<noteq> []"
    and lk: "key (last (heap st ! a)) = key (start sg)" by simp_all
  have dE: "distinct (map fst (map_delete (fragmentEnd st) (key (start sg))))"
    using D(2) by (simp add: map_delete_distinct)
  show "distinct (map fst (fragmentStart ?st'))" "distinct (map fst (fragmentEnd ?st'))"
    using D(1) dE by (simp_all add: map_set_distinct)
  have E': "(k, a') \<in> set (fragmentEnd ?st') \<Longrightarrow>
        (k, a') = (key (endp sg), a) \<or> ((k, a') \<in> set (fragmentEnd st) \<and> a' \<noteq> a)" for k a'
  proof -
    assume "(k, a') \<in> set (fragmentEnd ?st')"
    then have "(k, a') = (key (endp sg), a) \<or> ((k, a') \<in> set (fragmentEnd st) \<and> k \<noteq> key (start sg))"
      by (auto simp: map_set_set [OF dE] map_delete_set)
    then show ?thesis using D(4) [of k a'] lk by auto
  qed
  show "a' < length (heap ?st') \<and> heap ?st' ! a' \<noteq> [] \<and> key (hd (heap ?st' ! a')) = k"
    if "(k, a') \<in> set (fragmentStart ?st')" for k a'
    using that D(3) [of k a'] ane by (cases "a' = a") auto
  show "a' < length (heap ?st') \<and> heap ?st' ! a' \<noteq> [] \<and> key (last (heap ?st' ! a')) = k"
    if "(k, a') \<in> set (fragmentEnd ?st')" for k a'
    using E' [OF that] D(4) [of k a'] al by auto
  show "r < length (heap ?st') \<and> heap ?st' ! r \<noteq> [] \<and> hd (heap ?st' ! r) = last (heap ?st' ! r)
        \<and> r \<notin> snd ` set (fragmentStart ?st') \<and> r \<notin> snd ` set (fragmentEnd ?st')"
    if "r \<in> set (rings ?st')" for r
  proof -
    from that have r: "r \<in> set (rings st)" by simp
    note R = D(5) [OF r]
    have ra: "r \<noteq> a" using R a by (auto simp: image_iff)
    have "r \<notin> snd ` set (fragmentEnd ?st')"
    proof
      assume "r \<in> snd ` set (fragmentEnd ?st')"
      then obtain k where "(k, r) \<in> set (fragmentEnd ?st')" by force
      from E' [OF this] R ra show False by (auto simp: image_iff)
    qed
    then show ?thesis using R ra by simp
  qed
  show "small p" if "ps \<in> set (heap ?st')" "p \<in> set ps" for ps p
  proof -
    from that(1) have "ps \<in> set (heap st) \<or> ps = heap st ! a @ [endp sg]"
      using set_update_subset_insert [of "heap st" a] by auto
    moreover have "heap st ! a \<in> set (heap st)" using al by simp
    ultimately show ?thesis using that(2) D(6) [of _ p] sm by auto
  qed
qed

lemma join_unshift:
  assumes inv: "stitch_inv st" and sm: "small (start sg)"
    and b: "(key (endp sg), b) \<in> set (fragmentStart st)"
  shows "stitch_inv (st\<lparr> fragmentStart := map_set (map_delete (fragmentStart st) (key (endp sg))) (key (start sg)) b,
                         heap := (heap st)[b := start sg # heap st ! b] \<rparr>)" (is "stitch_inv ?st'")
proof (rule stitch_invI)
  note D = stitch_invD [OF inv]
  from D(3) [OF b] have bl: "b < length (heap st)" and bne: "heap st ! b \<noteq> []"
    and hk: "key (hd (heap st ! b)) = key (endp sg)" by simp_all
  have dS: "distinct (map fst (map_delete (fragmentStart st) (key (endp sg))))"
    using D(1) by (simp add: map_delete_distinct)
  show "distinct (map fst (fragmentStart ?st'))" "distinct (map fst (fragmentEnd ?st'))"
    using D(2) dS by (simp_all add: map_set_distinct)
  have S': "(k, a') \<in> set (fragmentStart ?st') \<Longrightarrow>
        (k, a') = (key (start sg), b) \<or> ((k, a') \<in> set (fragmentStart st) \<and> a' \<noteq> b)" for k a'
  proof -
    assume "(k, a') \<in> set (fragmentStart ?st')"
    then have "(k, a') = (key (start sg), b) \<or> ((k, a') \<in> set (fragmentStart st) \<and> k \<noteq> key (endp sg))"
      by (auto simp: map_set_set [OF dS] map_delete_set)
    then show ?thesis using D(3) [of k a'] hk by auto
  qed
  show "a' < length (heap ?st') \<and> heap ?st' ! a' \<noteq> [] \<and> key (hd (heap ?st' ! a')) = k"
    if "(k, a') \<in> set (fragmentStart ?st')" for k a'
    using S' [OF that] D(3) [of k a'] bl by auto
  show "a' < length (heap ?st') \<and> heap ?st' ! a' \<noteq> [] \<and> key (last (heap ?st' ! a')) = k"
    if "(k, a') \<in> set (fragmentEnd ?st')" for k a'
    using that D(4) [of k a'] bne by (cases "a' = b") auto
  show "r < length (heap ?st') \<and> heap ?st' ! r \<noteq> [] \<and> hd (heap ?st' ! r) = last (heap ?st' ! r)
        \<and> r \<notin> snd ` set (fragmentStart ?st') \<and> r \<notin> snd ` set (fragmentEnd ?st')"
    if "r \<in> set (rings ?st')" for r
  proof -
    from that have r: "r \<in> set (rings st)" by simp
    note R = D(5) [OF r]
    have rb: "r \<noteq> b" using R b by (auto simp: image_iff)
    have "r \<notin> snd ` set (fragmentStart ?st')"
    proof
      assume "r \<in> snd ` set (fragmentStart ?st')"
      then obtain k where "(k, r) \<in> set (fragmentStart ?st')" by force
      from S' [OF this] R rb show False by (auto simp: image_iff)
    qed
    then show ?thesis using R rb by simp
  qed
  show "small p" if "ps \<in> set (heap ?st')" "p \<in> set ps" for ps p
  proof -
    from that(1) have "ps \<in> set (heap st) \<or> ps = start sg # heap st ! b"
      using set_update_subset_insert [of "heap st" b] by auto
    moreover have "heap st ! b \<in> set (heap st)" using bl by simp
    ultimately show ?thesis using that(2) D(6) [of _ p] sm by auto
  qed
qed

lemma join_new:
  assumes inv: "stitch_inv st" and sm: "small (start sg)" "small (endp sg)"
  shows "stitch_inv (st\<lparr> fragmentEnd := map_set (fragmentEnd st) (key (endp sg)) (length (heap st)),
                         fragmentStart := map_set (fragmentStart st) (key (start sg)) (length (heap st)),
                         heap := heap st @ [[start sg, endp sg]] \<rparr>)" (is "stitch_inv ?st'")
proof (rule stitch_invI)
  note D = stitch_invD [OF inv]
  show "distinct (map fst (fragmentStart ?st'))" "distinct (map fst (fragmentEnd ?st'))"
    using D(1,2) by (simp_all add: map_set_distinct)
  have S': "(k, a') \<in> set (fragmentStart ?st') \<Longrightarrow>
        (k, a') = (key (start sg), length (heap st)) \<or> (k, a') \<in> set (fragmentStart st)" for k a'
    by (auto simp: map_set_set [OF D(1)])
  have E': "(k, a') \<in> set (fragmentEnd ?st') \<Longrightarrow>
        (k, a') = (key (endp sg), length (heap st)) \<or> (k, a') \<in> set (fragmentEnd st)" for k a'
    by (auto simp: map_set_set [OF D(2)])
  show "a' < length (heap ?st') \<and> heap ?st' ! a' \<noteq> [] \<and> key (hd (heap ?st' ! a')) = k"
    if "(k, a') \<in> set (fragmentStart ?st')" for k a'
    using S' [OF that] D(3) [of k a'] by (auto simp: nth_append)
  show "a' < length (heap ?st') \<and> heap ?st' ! a' \<noteq> [] \<and> key (last (heap ?st' ! a')) = k"
    if "(k, a') \<in> set (fragmentEnd ?st')" for k a'
    using E' [OF that] D(4) [of k a'] by (auto simp: nth_append)
  show "r < length (heap ?st') \<and> heap ?st' ! r \<noteq> [] \<and> hd (heap ?st' ! r) = last (heap ?st' ! r)
        \<and> r \<notin> snd ` set (fragmentStart ?st') \<and> r \<notin> snd ` set (fragmentEnd ?st')"
    if "r \<in> set (rings ?st')" for r
  proof -
    from that have r: "r \<in> set (rings st)" by simp
    note R = D(5) [OF r]
    have "r \<notin> snd ` set (fragmentStart ?st')"
    proof
      assume "r \<in> snd ` set (fragmentStart ?st')"
      then obtain k where "(k, r) \<in> set (fragmentStart ?st')" by force
      from S' [OF this] R show False by (auto simp: image_iff)
    qed
    moreover have "r \<notin> snd ` set (fragmentEnd ?st')"
    proof
      assume "r \<in> snd ` set (fragmentEnd ?st')"
      then obtain k where "(k, r) \<in> set (fragmentEnd ?st')" by force
      from E' [OF this] R show False by (auto simp: image_iff)
    qed
    ultimately show ?thesis using R by (simp add: nth_append)
  qed
  show "small p" if "ps \<in> set (heap ?st')" "p \<in> set ps" for ps p
    using that D(6) [of _ p] sm by auto
qed


lemma join_step_inv:
  assumes inv: "stitch_inv st" and sm: "small (start sg)" "small (endp sg)"
  shows "stitch_inv (join_step st sg)"
proof -
  note D = stitch_invD [OF inv]
  show ?thesis
  proof (cases "map_get (fragmentEnd st) (key (start sg))")
    case None
    note nE = None
    show ?thesis
    proof (cases "map_get (fragmentStart st) (key (endp sg))")
      case None
      have "join_step st sg =
              st\<lparr> fragmentEnd := map_set (fragmentEnd st) (key (endp sg)) (length (heap st)),
                  fragmentStart := map_set (fragmentStart st) (key (start sg)) (length (heap st)),
                  heap := heap st @ [[start sg, endp sg]] \<rparr>"
        by (simp add: join_step_def nE None Let_def)
      then show ?thesis using join_new [OF inv sm] by simp
    next
      case (Some b)
      then have b: "(key (endp sg), b) \<in> set (fragmentStart st)"
        by (simp add: map_get_Some [OF D(1)])
      have "join_step st sg =
              st\<lparr> fragmentStart := map_set (map_delete (fragmentStart st) (key (endp sg))) (key (start sg)) b,
                  heap := (heap st)[b := start sg # heap st ! b] \<rparr>"
        by (simp add: join_step_def nE Some Let_def)
      then show ?thesis using join_unshift [OF inv sm(1) b] by simp
    qed
  next
    case (Some a)
    note sE = Some
    then have a: "(key (start sg), a) \<in> set (fragmentEnd st)"
      by (simp add: map_get_Some [OF D(2)])
    show ?thesis
    proof (cases "map_get (fragmentStart st) (key (endp sg))")
      case None
      have "join_step st sg =
              st\<lparr> fragmentEnd := map_set (map_delete (fragmentEnd st) (key (start sg))) (key (endp sg)) a,
                  heap := (heap st)[a := heap st ! a @ [endp sg]] \<rparr>"
        by (simp add: join_step_def sE None Let_def)
      then show ?thesis using join_push [OF inv sm(2) a] by simp
    next
      case (Some b)
      then have b: "(key (endp sg), b) \<in> set (fragmentStart st)"
        by (simp add: map_get_Some [OF D(1)])
      show ?thesis
      proof (cases "a = b")
        case True
        have "join_step st sg =
                st\<lparr> fragmentEnd := map_delete (fragmentEnd st) (key (start sg)),
                    fragmentStart := map_delete (fragmentStart st) (key (endp sg)),
                    heap := (heap st)[a := heap st ! a @ [endp sg]],
                    rings := rings st @ [a] \<rparr>"
          by (simp add: join_step_def sE Some True Let_def)
        then show ?thesis using join_ring [OF inv sm(2) a] b True by simp
      next
        case False
        let ?c = "heap st ! a @ heap st ! b"
        from D(4) [OF a] have ne: "?c \<noteq> []" by simp
        then have "?c ! 0 = hd ?c" "?c ! (length ?c - 1) = last ?c"
          using hd_conv_nth [of ?c] last_conv_nth [of ?c] by simp_all
        then have "join_step st sg =
                st\<lparr> fragmentEnd := map_set (map_delete (fragmentEnd st) (key (start sg)))
                                          (key (last ?c)) (length (heap st)),
                    fragmentStart := map_set (map_delete (fragmentStart st) (key (endp sg)))
                                          (key (hd ?c)) (length (heap st)),
                    heap := heap st @ [?c] \<rparr>"
          by (simp add: join_step_def sE Some False Let_def)
        then show ?thesis using join_concat [OF inv a b] by simp
      qed
    qed
  qed
qed

lemma stitch_inv_console [simp]: "stitch_inv (st\<lparr> console := c \<rparr>) = stitch_inv st"
  by (simp add: stitch_inv_def)

lemma stitch_step_inv:
  "stitch_inv st \<Longrightarrow> small (start sg) \<Longrightarrow> small (endp sg) \<Longrightarrow> stitch_inv (stitch_step st sg)"
  by (simp add: stitch_step_def Let_def join_step_inv)

lemma foldl_stitch_inv:
  "stitch_inv st \<Longrightarrow> \<forall>sg \<in> set sgs. small (start sg) \<and> small (endp sg) \<Longrightarrow>
   stitch_inv (foldl stitch_step st sgs)"
  by (induction sgs arbitrary: st) (simp_all add: stitch_step_inv)

lemma stitchAll_inv:
  "\<forall>sg \<in> set sgs. small (start sg) \<and> small (endp sg) \<Longrightarrow> stitch_inv (stitchAll sgs)"
  unfolding stitchAll_def by (rule foldl_stitch_inv) (simp_all add: stitch_inv_def stitch_init_def)


lemma lines_nonempty_stitch:
  assumes "\<forall>sg \<in> set sgs. small (start sg) \<and> small (endp sg)" and "r \<in> set (openLinesOf (stitchAll sgs))"
  shows "r \<noteq> []"
  using stitch_invD(3) [OF stitchAll_inv [OF assms(1)]] assms(2)
  by (auto simp: openLinesOf_def)

section \<open>The least and the greatest sample under a cell\<close>













section \<open>Rounding to the nearest double is monotone on the doubles\<close>

lemma pow2_powi: "pow2 e = 2 powi e"
  by (simp add: pow2_def power_int_def power_one_over)

lemma pow2_pos: "0 < pow2 e"
  by (simp add: pow2_powi zero_less_power_int)

lemma pow2_add: "pow2 (a + b) = pow2 a * pow2 b"
  by (simp add: pow2_powi power_int_add)

lemma pow2_diff: "pow2 (a - b) = pow2 a / pow2 b"
  by (simp add: pow2_powi power_int_diff)

lemma pow2_mono: "a \<le> b \<Longrightarrow> pow2 a \<le> pow2 b"
  by (simp add: pow2_powi power_int_increasing)

lemma pow2_strict: "a < b \<Longrightarrow> pow2 a < pow2 b"
  by (simp add: pow2_powi power_int_strict_increasing)

lemma pow2_less_iff: "pow2 a < pow2 b \<longleftrightarrow> a < b"
  using pow2_strict [of a b] pow2_mono [of b a] by (cases "a < b") auto

lemma pow2_nat: "0 \<le> e \<Longrightarrow> pow2 e = of_int (2 ^ nat e)"
  by (simp add: pow2_def)

lemma ilog2_bounds:
  assumes "0 < x"
  shows "pow2 (ilog2 x) \<le> x" and "x < pow2 (ilog2 x + 1)"
proof -
  have "pow2 (ilog2 x) \<le> x \<and> x < pow2 (ilog2 x + 1)"
  proof (cases "1 \<le> x")
    case True
    define n where "n = \<lfloor>x\<rfloor>"
    define b where "b = bitlen n"
    have n: "0 < n" using True by (simp add: n_def)
    from bitlen_bounds [OF n] have lo: "2 ^ nat (b - 1) \<le> n" and hi: "n < 2 ^ nat b"
      by (simp_all add: b_def)
    have b: "1 \<le> b" using n bitlen_eq_zero_iff [of n] bitlen_nonneg [of n] by (simp add: b_def)
    have i: "ilog2 x = b - 1" using True by (simp add: ilog2_def n_def b_def)
    have "pow2 (b - 1) = of_int (2 ^ nat (b - 1))" using b by (simp add: pow2_nat)
    also have "\<dots> \<le> of_int n" using lo by (simp only: of_int_le_iff)
    also have "\<dots> \<le> x" by (simp add: n_def)
    finally have 1: "pow2 (b - 1) \<le> x" .
    have "x < of_int (n + 1)" unfolding n_def using floor_correct [of x] by blast
    also have "\<dots> \<le> of_int (2 ^ nat b)" using hi by (simp only: of_int_le_iff)
    also have "\<dots> = pow2 b" using b by (simp add: pow2_nat)
    finally have 2: "x < pow2 (b - 1 + 1)" by simp
    from 1 2 show ?thesis unfolding i by simp
  next
    case False
    define n where "n = \<lceil>1 / x\<rceil> - 1"
    define b where "b = bitlen n"
    have "1 < 1 / x" using False assms by simp
    then have "1 < \<lceil>1 / x\<rceil>" by (simp add: less_ceiling_iff)
    then have n: "0 < n" by (simp add: n_def)
    from bitlen_bounds [OF n] have lo: "2 ^ nat (b - 1) \<le> n" and hi: "n < 2 ^ nat b"
      by (simp_all add: b_def)
    have b: "1 \<le> b" using n bitlen_eq_zero_iff [of n] bitlen_nonneg [of n] by (simp add: b_def)
    have i: "ilog2 x = - b" using False by (simp add: ilog2_def n_def b_def)
    have "1 / x \<le> of_int (n + 1)" by (simp add: n_def)
    also have "\<dots> \<le> of_int (2 ^ nat b)" using hi by (simp only: of_int_le_iff)
    also have "\<dots> = pow2 b" using b by (simp add: pow2_nat)
    finally have "1 / x \<le> pow2 b" .
    then have "1 \<le> pow2 b * x" using assms by (simp add: pos_divide_le_eq)
    then have "1 / pow2 b \<le> x" using pow2_pos [of b] by (simp add: pos_divide_le_eq mult.commute)
    moreover have "pow2 (- b) = 1 / pow2 b" using pow2_diff [of 0 b] by (simp add: pow2_def)
    ultimately have 1: "pow2 (- b) \<le> x" by simp
    have "pow2 (b - 1) = of_int (2 ^ nat (b - 1))" using b by (simp add: pow2_nat)
    also have "\<dots> \<le> of_int n" using lo by (simp only: of_int_le_iff)
    also have "of_int n < 1 / x" unfolding n_def using ceiling_correct [of "1 / x"] by simp
    finally have "pow2 (b - 1) < 1 / x" .
    then have "pow2 (b - 1) * x < 1" using assms by (simp add: pos_less_divide_eq)
    then have "x < 1 / pow2 (b - 1)" using pow2_pos [of "b - 1"] by (simp add: pos_less_divide_eq mult.commute)
    moreover have "pow2 (- b + 1) = 1 / pow2 (b - 1)" using pow2_diff [of 0 "b - 1"] by (simp add: pow2_def)
    ultimately have 2: "x < pow2 (- b + 1)" by simp
    from 1 2 show ?thesis unfolding i by simp
  qed
  then show "pow2 (ilog2 x) \<le> x" and "x < pow2 (ilog2 x + 1)" by simp_all
qed

lemma ilog2_less: "0 < x \<Longrightarrow> x < pow2 e \<Longrightarrow> ilog2 x < e"
  using ilog2_bounds(1) [of x] pow2_less_iff [of "ilog2 x" e] by simp

lemma ilog2_ge: "0 < x \<Longrightarrow> pow2 e \<le> x \<Longrightarrow> e \<le> ilog2 x"
  using ilog2_bounds(2) [of x] pow2_less_iff [of e "ilog2 x + 1"] by simp

lemma ilog2_unique: "0 < x \<Longrightarrow> pow2 e \<le> x \<Longrightarrow> x < pow2 (e + 1) \<Longrightarrow> ilog2 x = e"
  using ilog2_less [of x "e + 1"] ilog2_ge [of x e] by simp

lemma ilog2_mono: "0 < a \<Longrightarrow> a \<le> b \<Longrightarrow> ilog2 a \<le> ilog2 b"
  using ilog2_ge [of b "ilog2 a"] ilog2_bounds(1) [of a] by simp

lemma round_even_int: "round_even (of_int k) = k"
  by (simp add: round_even_def)

lemma round_even_floor: "\<lfloor>r\<rfloor> \<le> round_even r" "round_even r \<le> \<lfloor>r\<rfloor> + 1"
  by (simp_all add: round_even_def Let_def)

lemma round_even_mono:
  assumes "a \<le> b"
  shows "round_even a \<le> round_even b"
proof (cases "\<lfloor>a\<rfloor> = \<lfloor>b\<rfloor>")
  case True
  with assms show ?thesis by (auto simp: round_even_def Let_def)
next
  case False
  with assms have "\<lfloor>a\<rfloor> < \<lfloor>b\<rfloor>" using floor_mono [of a b] by simp
  with round_even_floor(2) [of a] round_even_floor(1) [of b] show ?thesis by simp
qed

lemma round_even_small:
  assumes "\<bar>r\<bar> < 1 / 2"
  shows "round_even r = 0"
proof (cases "0 \<le> r")
  case True
  with assms have "\<lfloor>r\<rfloor> = 0" by (simp add: floor_unique)
  with assms True show ?thesis by (simp add: round_even_def Let_def)
next
  case False
  with assms have f: "\<lfloor>r\<rfloor> = - 1" by (intro floor_unique) simp_all
  with assms False show ?thesis by (simp add: round_even_def Let_def)
qed

text \<open>A multiple of a unit is a multiple of every smaller unit.\<close>

lemma multiple_finer:
  assumes "x = of_int k * pow2 a" and "b \<le> a"
  shows "\<exists>j. x = of_int j * pow2 b"
proof -
  have "pow2 a = pow2 (a - b) * pow2 b" using pow2_add [of "a - b" b] by simp
  also have "pow2 (a - b) = of_int (2 ^ nat (a - b))" using assms(2) by (simp add: pow2_nat)
  finally have "x = of_int (k * 2 ^ nat (a - b)) * pow2 b"
    unfolding assms(1) by simp
  then show ?thesis ..
qed

lemma ulp_pos: "0 < ulp x"
  by (simp add: ulp_def pow2_pos)

lemma double_round_ulp:
  "double_round x =
    (if x = 0 then Fin 0
     else if pow2 1024 \<le> of_int (round_even (x / ulp x)) * ulp x then PosInf
     else if of_int (round_even (x / ulp x)) * ulp x \<le> - pow2 1024 then NegInf
     else Fin (of_int (round_even (x / ulp x)) * ulp x))"
  by (simp add: double_round_def ulp_def Let_def)

text \<open>
  A double other than 0 is a multiple of its own unit in the last place, and at least
  \<open>2^-1074\<close> in absolute value.
\<close>

lemma double_grid:
  assumes r: "double_round z = Fin x" and x: "x \<noteq> 0"
  shows "\<exists>k. x = of_int k * ulp x" and "pow2 (- 1074) \<le> \<bar>x\<bar>"
proof -
  define e where "e = ilog2 \<bar>z\<bar>"
  define a where "a = max (e - 52) (- 1074)"
  define k where "k = round_even (z / pow2 a)"
  have z: "z \<noteq> 0" using r x by (auto simp: double_round_ulp)
  have u: "ulp z = pow2 a" by (simp add: ulp_def a_def e_def)
  have xk: "x = of_int k * pow2 a"
    using r z unfolding double_round_ulp u k_def by (simp split: if_splits)
  have k0: "k \<noteq> 0" using x xk by auto
  have zb: "\<bar>z\<bar> < pow2 (e + 1)" unfolding e_def using z by (intro ilog2_bounds(2)) simp
  have e: "- 1075 \<le> e"
  proof (rule ccontr)
    assume "\<not> - 1075 \<le> e"
    then have e': "e + 1 \<le> - 1075" and a': "a = - 1074" by (simp_all add: a_def)
    have "\<bar>z\<bar> < pow2 (- 1075)" using zb pow2_mono [OF e'] by simp
    also have "pow2 (- 1075) = pow2 (- 1074) / 2" using pow2_diff [of "- 1074" 1] by (simp add: pow2_def)
    finally have "\<bar>z / pow2 a\<bar> < 1 / 2"
      unfolding a' using pow2_pos [of "- 1074"] by (simp add: abs_divide pos_divide_less_eq)
    then have "k = 0" unfolding k_def by (rule round_even_small)
    with k0 show False ..
  qed
  have j: "0 \<le> e + 1 - a" using e by (simp add: a_def)
  define M :: int where "M = 2 ^ nat (e + 1 - a)"
  have M: "pow2 (e + 1) = of_int M * pow2 a"
    using pow2_add [of "e + 1 - a" a] j by (simp add: M_def pow2_nat)
  have "\<bar>z\<bar> / pow2 a < of_int M"
    using zb M pow2_pos [of a] by (simp add: pos_divide_less_eq)
  then have "\<bar>z / pow2 a\<bar> < of_int M" using pow2_pos [of a] by (simp add: abs_divide)
  then have "z / pow2 a < of_int M \<and> - (z / pow2 a) < of_int M" by (simp only: abs_less_iff)
  then have "of_int (- M) \<le> z / pow2 a" "z / pow2 a \<le> of_int M" by simp_all
  then have "- M \<le> k" "k \<le> M"
    unfolding k_def using round_even_mono [of "of_int (- M)" "z / pow2 a"]
      round_even_mono [of "z / pow2 a" "of_int M"] round_even_int by (metis, metis)
  then have kM: "\<bar>k\<bar> \<le> M" by simp
  have ax: "\<bar>x\<bar> = of_int \<bar>k\<bar> * pow2 a"
    unfolding xk using pow2_pos [of a] by (simp add: abs_mult)
  have "pow2 a \<le> \<bar>x\<bar>"
  proof -
    have "1 \<le> \<bar>k\<bar>" using k0 by simp
    then have "(1 :: rat) \<le> of_int \<bar>k\<bar>" by (simp only: of_int_1_le_iff)
    then have "1 * pow2 a \<le> of_int \<bar>k\<bar> * pow2 a"
      using pow2_pos [of a] by (intro mult_right_mono) simp_all
    then show ?thesis unfolding ax by simp
  qed
  moreover have "pow2 (- 1074) \<le> pow2 a" by (rule pow2_mono) (simp add: a_def)
  ultimately show "pow2 (- 1074) \<le> \<bar>x\<bar>" by simp
  have xpos: "0 < \<bar>x\<bar>" using x by simp
  have xle: "\<bar>x\<bar> \<le> pow2 (e + 1)"
  proof -
    have "(of_int \<bar>k\<bar> :: rat) \<le> of_int M" using kM by (simp only: of_int_le_iff)
    then have "of_int \<bar>k\<bar> * pow2 a \<le> of_int M * pow2 a"
      using pow2_pos [of a] by (intro mult_right_mono) simp_all
    then show ?thesis unfolding ax M .
  qed
  show "\<exists>k. x = of_int k * ulp x"
  proof (cases "\<bar>x\<bar> = pow2 (e + 1)")
    case True
    then have i: "ilog2 \<bar>x\<bar> = e + 1"
      using pow2_strict [of "e + 1" "e + 1 + 1"] pow2_pos [of "e + 1"]
      by (intro ilog2_unique) simp_all
    define c where "c = max (e + 1 - 52) (- 1074)"
    have c: "ulp x = pow2 c" by (simp add: ulp_def i c_def)
    have "c \<le> e + 1" using e by (simp add: c_def)
    moreover have "\<bar>x\<bar> = of_int 1 * pow2 (e + 1)" using True by simp
    ultimately obtain j where j: "\<bar>x\<bar> = of_int j * pow2 c" using multiple_finer by blast
    show ?thesis
    proof (cases "0 \<le> x")
      case True
      with j show ?thesis unfolding c by auto
    next
      case False
      with j have "x = of_int (- j) * pow2 c" by simp
      then show ?thesis unfolding c by blast
    qed
  next
    case False
    with xle have "\<bar>x\<bar> < pow2 (e + 1)" by simp
    then have "ilog2 \<bar>x\<bar> < e + 1" using xpos by (intro ilog2_less)
    then have "max (ilog2 \<bar>x\<bar> - 52) (- 1074) \<le> a" by (simp add: a_def)
    from multiple_finer [OF xk this] show ?thesis by (simp add: ulp_def)
  qed
qed

lemma double_above:
  assumes "double_round z = Fin x"
  shows "- pow2 1024 < x"
  using assms pow2_pos [of 1024] by (auto simp: double_round_ulp split: if_splits)

text \<open>
  Rounding a number above a double does not give less than the double.
\<close>

lemma round_above_double:
  assumes r: "double_round z = Fin x" and lt: "x < y" and y: "y \<noteq> 0"
  shows "x \<le> of_int (round_even (y / ulp y)) * ulp y"
proof -
  define u where "u = ulp y"
  have u: "0 < u" by (simp add: u_def ulp_pos)
  have up: "k \<le> round_even (y / u) \<Longrightarrow> of_int k * u \<le> of_int (round_even (y / u)) * u" for k
    using u by (intro mult_right_mono) simp_all
  have via: "x \<le> of_int (round_even (y / u)) * u" if "x = of_int k * u" for k
  proof -
    have "of_int k * u < y" using lt that by simp
    then have "of_int k \<le> y / u" using u by (simp add: pos_le_divide_eq)
    then have "k \<le> round_even (y / u)"
      using round_even_mono [of "of_int k" "y / u"] by (simp add: round_even_int)
    from up [OF this] that show ?thesis by simp
  qed
  have ?thesis if "x \<le> 0" "0 < y"
  proof -
    have "0 \<le> y / u" using that u by simp
    then have "0 \<le> round_even (y / u)"
      using round_even_mono [of 0 "y / u"] round_even_int [of 0] by simp
    from up [OF this] that show ?thesis unfolding u_def by simp
  qed
  moreover have ?thesis if "0 < x"
  proof -
    have x0: "x \<noteq> 0" and yp: "0 < y" using that lt by simp_all
    from double_grid(1) [OF r x0] obtain k where k: "x = of_int k * ulp x" ..
    have small: "pow2 (- 1074) \<le> x" using double_grid(2) [OF r x0] that by simp
    define e where "e = ilog2 y"
    have e: "- 1074 \<le> e" unfolding e_def using small lt yp by (intro ilog2_ge) simp_all
    have uy: "u = pow2 (max (e - 52) (- 1074))" using yp by (simp add: u_def ulp_def e_def)
    show ?thesis
    proof (cases "x < pow2 e")
      case True
      have "max (e - 52) (- 1074) \<le> e" using e by simp
      from multiple_finer [OF _ this, of "pow2 e" 1] obtain j where j: "pow2 e = of_int j * u"
        unfolding uy by auto
      have "pow2 e \<le> y" unfolding e_def using yp by (rule ilog2_bounds(1))
      then have "of_int j \<le> y / u" using u j by (simp add: pos_le_divide_eq)
      then have "j \<le> round_even (y / u)"
        using round_even_mono [of "of_int j" "y / u"] by (simp add: round_even_int)
      from up [OF this] j True show ?thesis unfolding u_def by simp
    next
      case False
      have "y < pow2 (e + 1)" unfolding e_def using yp by (rule ilog2_bounds(2))
      with lt have "x < pow2 (e + 1)" by simp
      with False that have "ilog2 x = e" by (intro ilog2_unique) simp_all
      then have "ulp x = u" using that by (simp add: ulp_def uy)
      with k have "x = of_int k * u" by simp
      from via [OF this] show ?thesis unfolding u_def .
    qed
  qed
  moreover have ?thesis if "y < 0"
  proof -
    have x0: "x \<noteq> 0" and xn: "x < 0" using that lt by simp_all
    from double_grid(1) [OF r x0] obtain k where k: "x = of_int k * ulp x" ..
    have "ilog2 \<bar>y\<bar> \<le> ilog2 \<bar>x\<bar>" using that lt by (intro ilog2_mono) simp_all
    then have "max (ilog2 \<bar>y\<bar> - 52) (- 1074) \<le> max (ilog2 \<bar>x\<bar> - 52) (- 1074)" by simp
    from multiple_finer [OF k [unfolded ulp_def] this] obtain j where "x = of_int j * u"
      unfolding u_def ulp_def by auto
    from via [OF this] show ?thesis unfolding u_def .
  qed
  ultimately show ?thesis using y by (cases "0 < x"; cases "y < 0") auto
qed

lemma double_round_never_below:
  assumes "0 < s"
  shows "never_below double_round s"
  unfolding never_below_def
proof (intro allI impI)
  fix x z
  assume r: "double_round z = Fin x"
  show "\<not> js_lt (double_round (x + s)) (Fin x)"
  proof (cases "x + s = 0")
    case True
    then have "x < 0" using assms by simp
    then show ?thesis unfolding True by (simp add: double_round_ulp)
  next
    case False
    have "x < x + s" using assms by simp
    from round_above_double [OF r this False] double_above [OF r]
    show ?thesis
      unfolding double_round_ulp [of "x + s"] using False by auto
  qed
qed

section \<open>The edges a subdivided node visits\<close>







section \<open>The sizes of the two fragment maps\<close>

lemma nodata_levels: "levels nodata =
   [\<lparr>min_arr = [Fin 1], max_arr = [Fin 9], width = 1, height = 1, scale = 4\<rparr>,
    \<lparr>min_arr = [Fin 9, Fin 1, Fin 1, Fin 1], max_arr = [Fin 9, Fin 9, Fin 1, Fin 9],
       width = 2, height = 2, scale = 2\<rparr>,
    \<lparr>min_arr = nodata_raster, max_arr = nodata_raster, width = 4, height = 4, scale = 1\<rparr>]"
  by code_simp

lemma nodata_events: "evaluateContour nodata (Fin 5) None =
   Inr [Leaf 1 0 0 ABOVE, Leaf 2 2 0 OUTSIDE, Leaf 2 3 0 ABOVE, Leaf 2 2 1 BELOW, Leaf 2 3 1 OUTSIDE,
        Leaf 1 0 1 BELOW, Leaf 2 2 2 ABOVE, Leaf 2 3 2 OUTSIDE, Leaf 2 2 3 OUTSIDE, Leaf 2 3 3 BELOW,
        Line 1 0 1 1 1, Line 2 3 2 2 2]"
  by code_simp

lemma nodata_segments: "segmentsOf nodata
       [Leaf 1 0 0 ABOVE, Leaf 2 2 0 OUTSIDE, Leaf 2 3 0 ABOVE, Leaf 2 2 1 BELOW, Leaf 2 3 1 OUTSIDE,
        Leaf 1 0 1 BELOW, Leaf 2 2 2 ABOVE, Leaf 2 3 2 OUTSIDE, Leaf 2 2 3 OUTSIDE, Leaf 2 3 3 BELOW,
        Line 1 0 1 1 1, Line 2 3 2 2 2] =
   [\<lparr>start = (0, 2), endp = (2, 2)\<rparr>, \<lparr>start = (3, 2), endp = (2, 2)\<rparr>]"
  by (simp add: segmentsOf_def nodata_levels)

lemma nodata_stitch: "stitchAll [\<lparr>start = (0, 2), endp = (2, 2)\<rparr>, \<lparr>start = (3, 2), endp = (2, 2)\<rparr>]
     = \<lparr>heap = [[(0, 2), (2, 2)], [(3, 2), (2, 2)]], fragmentStart = [(131072, 0), (131075, 1)],
         fragmentEnd = [(131074, 1)], rings = [], console = [(2, 1)]\<rparr>"
  by (simp add: stitchAll_def stitch_step_def join_step_def stitch_init_def map_get_def map_delete_def)

text \<open>
  C2. The claim: after every prefix of the segment list of \<open>contour\<close> the two
  fragment maps have the same size. On the raster \<open>nodata_raster\<close> at the threshold 5
  the walker emits two segments that both end in the point (2, 2) and none that starts
  there: one along the border of two coarse cells, one between two pixels. The second
  segment finds no fragment to join, and its \<open>fragmentEnd.set\<close> replaces the entry of
  the first: \<open>fragmentStart\<close> then has two entries and \<open>fragmentEnd\<close> one, and the
  size check of the loop reports it.
\<close>

theorem stitch_size_mismatch:
  "evaluateContour nodata (Fin 5) None =
     Inr [Leaf 1 0 0 ABOVE, Leaf 2 2 0 OUTSIDE, Leaf 2 3 0 ABOVE, Leaf 2 2 1 BELOW, Leaf 2 3 1 OUTSIDE,
          Leaf 1 0 1 BELOW, Leaf 2 2 2 ABOVE, Leaf 2 3 2 OUTSIDE, Leaf 2 2 3 OUTSIDE, Leaf 2 3 3 BELOW,
          Line 1 0 1 1 1, Line 2 3 2 2 2]
   \<and> segmentsOf nodata
        [Leaf 1 0 0 ABOVE, Leaf 2 2 0 OUTSIDE, Leaf 2 3 0 ABOVE, Leaf 2 2 1 BELOW, Leaf 2 3 1 OUTSIDE,
         Leaf 1 0 1 BELOW, Leaf 2 2 2 ABOVE, Leaf 2 3 2 OUTSIDE, Leaf 2 2 3 OUTSIDE, Leaf 2 3 3 BELOW,
         Line 1 0 1 1 1, Line 2 3 2 2 2] =
       [\<lparr>start = (0, 2), endp = (2, 2)\<rparr>, \<lparr>start = (3, 2), endp = (2, 2)\<rparr>]
   \<and> length (fragmentStart (stitchAll [\<lparr>start = (0, 2), endp = (2, 2)\<rparr>, \<lparr>start = (3, 2), endp = (2, 2)\<rparr>])) = 2
   \<and> length (fragmentEnd (stitchAll [\<lparr>start = (0, 2), endp = (2, 2)\<rparr>, \<lparr>start = (3, 2), endp = (2, 2)\<rparr>])) = 1
   \<and> console (stitchAll [\<lparr>start = (0, 2), endp = (2, 2)\<rparr>, \<lparr>start = (3, 2), endp = (2, 2)\<rparr>]) = [(2, 1)]"
  unfolding nodata_events nodata_segments nodata_stitch by simp

section \<open>Cells without data\<close>

lemma minFinite_isFinite:
  assumes "NegInf \<notin> set vs"
  shows "isFinite (minFinite vs) \<longleftrightarrow> (\<exists>v \<in> set vs. isFinite v)"
proof
  assume "isFinite (minFinite vs)"
  then obtain a where "minFinite vs = Fin a" by (cases "minFinite vs") auto
  from minFinite_Fin(2) [OF this] show "\<exists>v \<in> set vs. isFinite v" by force
next
  assume "\<exists>v \<in> set vs. isFinite v"
  then obtain a where a: "Fin a \<in> set vs" by (metis isFinite.elims(2))
  have "\<not> js_lt (Fin a) (minFinite vs)" using a by (rule minFinite_props(3))
  moreover have "minFinite vs \<noteq> NaN" by (rule minFinite_props(1))
  moreover have "minFinite vs \<noteq> NegInf" using minFinite_props(2) [of vs] assms by auto
  ultimately show "isFinite (minFinite vs)" by (cases "minFinite vs") auto
qed

lemma maxFinite_isFinite:
  assumes "PosInf \<notin> set vs"
  shows "isFinite (maxFinite vs) \<longleftrightarrow> (\<exists>v \<in> set vs. isFinite v)"
proof
  assume "isFinite (maxFinite vs)"
  then obtain a where "maxFinite vs = Fin a" by (cases "maxFinite vs") auto
  from maxFinite_Fin(2) [OF this] show "\<exists>v \<in> set vs. isFinite v" by force
next
  assume "\<exists>v \<in> set vs. isFinite v"
  then obtain a where a: "Fin a \<in> set vs" by (metis isFinite.elims(2))
  have "\<not> js_lt (maxFinite vs) (Fin a)" using a by (rule maxFinite_props(3))
  moreover have "maxFinite vs \<noteq> NaN" by (rule maxFinite_props(1))
  moreover have "maxFinite vs \<noteq> PosInf" using maxFinite_props(2) [of vs] assms by auto
  ultimately show "isFinite (maxFinite vs)" by (cases "maxFinite vs") auto
qed

lemma has_finite_children:
  assumes s: "1 \<le> s" and wc: "wc = (w + s - 1) div s" and hc: "hc = (h + s - 1) div s"
  shows "has_finite raster w h (s * 2) x y \<longleftrightarrow>
         (\<exists>cx cy. x * 2 \<le> cx \<and> cx < wc \<and> cx < x * 2 + 2 \<and> y * 2 \<le> cy \<and> cy < hc \<and> cy < y * 2 + 2
                  \<and> has_finite raster w h s cx cy)"
proof
  assume "has_finite raster w h (s * 2) x y"
  then obtain i j where ij: "i < w" "j < h" "i div (s * 2) = x" "j div (s * 2) = y"
    "isFinite (raster ! (j * w + i))" by (auto simp: has_finite_def)
  have "i div s div 2 = x" "j div s div 2 = y" using ij(3,4) by (simp_all add: div_mult2_eq)
  then have "x * 2 \<le> i div s" "i div s < x * 2 + 2" "y * 2 \<le> j div s" "j div s < y * 2 + 2"
    by linarith+
  moreover have "i div s < wc" "j div s < hc"
    unfolding wc hc using s ij(1,2) by (intro div_lt_ceil; simp)+
  moreover have "has_finite raster w h s (i div s) (j div s)"
    using ij by (auto simp: has_finite_def)
  ultimately show "\<exists>cx cy. x * 2 \<le> cx \<and> cx < wc \<and> cx < x * 2 + 2 \<and> y * 2 \<le> cy \<and> cy < hc \<and> cy < y * 2 + 2
                  \<and> has_finite raster w h s cx cy" by blast
next
  assume "\<exists>cx cy. x * 2 \<le> cx \<and> cx < wc \<and> cx < x * 2 + 2 \<and> y * 2 \<le> cy \<and> cy < hc \<and> cy < y * 2 + 2
                  \<and> has_finite raster w h s cx cy"
  then obtain cx cy i j where c: "x * 2 \<le> cx" "cx < x * 2 + 2" "y * 2 \<le> cy" "cy < y * 2 + 2"
    and ij: "i < w" "j < h" "i div s = cx" "j div s = cy" "isFinite (raster ! (j * w + i))"
    by (auto simp: has_finite_def)
  have "cx div 2 = x" "cy div 2 = y" using c by linarith+
  then have "i div (s * 2) = x" "j div (s * 2) = y" using ij(3,4) by (simp_all add: div_mult2_eq)
  with ij show "has_finite raster w h (s * 2) x y" by (auto simp: has_finite_def)
qed


lemma summarises_base:
  assumes "length raster = w * h" and "\<forall>v \<in> set raster. v = NaN \<or> isFinite v"
  shows "summarises raster w h \<lparr> min_arr = raster, max_arr = raster, width = w, height = h, scale = 1 \<rparr>"
proof -
  have cell: "(isFinite (get raster (y * w + x)) \<longleftrightarrow> has_finite raster w h 1 x y)
      \<and> get raster (y * w + x) \<noteq> NegInf \<and> get raster (y * w + x) \<noteq> PosInf"
    if "x < w" "y < h" for x y
  proof -
    have "y * w + w \<le> h * w"
      using that(2) by (metis Suc_leI mult_Suc mult_le_mono1 add.commute)
    then have "y * w + x < length raster" using that(1) assms(1) by (simp add: mult.commute)
    then have g: "get raster (y * w + x) = raster ! (y * w + x)" and "raster ! (y * w + x) \<in> set raster"
      by (simp_all add: get_def)
    then have "get raster (y * w + x) = NaN \<or> isFinite (get raster (y * w + x))"
      using assms(2) by auto
    moreover have "has_finite raster w h 1 x y \<longleftrightarrow> isFinite (raster ! (y * w + x))"
      using that by (auto simp: has_finite_def)
    ultimately show ?thesis using g by auto
  qed
  then show ?thesis by (simp add: summarises_def)
qed

lemma summarises_reduce:
  assumes "summarises raster w h c" and f: "float32_level c"
  shows "summarises raster w h (mipmapReduce c)"
proof -
  let ?p = "mipmapReduce c"
  let ?s = "scale c" and ?wc = "width c" and ?hc = "height c"
  from assms(1) have s: "1 \<le> ?s" and wc: "?wc = (w + ?s - 1) div ?s" and hc: "?hc = (h + ?s - 1) div ?s"
    and cells: "\<And>cx cy. cx < ?wc \<Longrightarrow> cy < ?hc \<Longrightarrow>
          (isFinite (get (min_arr c) (cy * ?wc + cx)) \<longleftrightarrow> has_finite raster w h ?s cx cy)
          \<and> (isFinite (get (max_arr c) (cy * ?wc + cx)) \<longleftrightarrow> has_finite raster w h ?s cx cy)
          \<and> get (min_arr c) (cy * ?wc + cx) \<noteq> NegInf
          \<and> get (max_arr c) (cy * ?wc + cx) \<noteq> PosInf"
    unfolding summarises_def by blast+
  have sp: "scale ?p = ?s * 2" and wp: "width ?p = (?wc + 1) div 2" and hp: "height ?p = (?hc + 1) div 2"
    by (simp_all add: mipmapReduce_def)
  have w': "width ?p = (w + scale ?p - 1) div scale ?p"
    unfolding sp wp wc by (rule ceil_div_half [OF s])
  have h': "height ?p = (h + scale ?p - 1) div scale ?p"
    unfolding sp hp hc by (rule ceil_div_half [OF s])
  have cell: "(isFinite (get (min_arr ?p) (y * width ?p + x)) \<longleftrightarrow> has_finite raster w h (scale ?p) x y)
          \<and> (isFinite (get (max_arr ?p) (y * width ?p + x)) \<longleftrightarrow> has_finite raster w h (scale ?p) x y)
          \<and> get (min_arr ?p) (y * width ?p + x) \<noteq> NegInf
          \<and> get (max_arr ?p) (y * width ?p + x) \<noteq> PosInf"
    if "x < width ?p" "y < height ?p" for x y
  proof -
    let ?cs = "children_idx ?wc ?hc x y"
    let ?mins = "map (get (min_arr c)) ?cs" and ?maxs = "map (get (max_arr c)) ?cs"
    have x: "x < (?wc + 1) div 2" and y: "y < (?hc + 1) div 2" using that wp hp by simp_all
    have mn: "get (min_arr ?p) (y * width ?p + x) = minFinite ?mins"
      and mx: "get (max_arr ?p) (y * width ?p + x) = maxFinite ?maxs"
      using mipmapReduce_cell [OF f x y] by simp_all
    have k: "(isFinite (get (min_arr c) k) \<longleftrightarrow> has_finite raster w h ?s cx cy)
          \<and> (isFinite (get (max_arr c) k) \<longleftrightarrow> has_finite raster w h ?s cx cy)
          \<and> get (min_arr c) k \<noteq> NegInf \<and> get (max_arr c) k \<noteq> PosInf"
      if "k = cy * ?wc + cx" "cx < ?wc" "cy < ?hc" for k cx cy
      using cells [OF that(2,3)] that(1) by simp
    have no1: "NegInf \<notin> set ?mins"
    proof
      assume "NegInf \<in> set ?mins"
      then obtain k where "k \<in> set ?cs" "get (min_arr c) k = NegInf" by auto
      then obtain cx cy where "cx < ?wc" "cy < ?hc" "get (min_arr c) (cy * ?wc + cx) = NegInf"
        unfolding children_idx_mem by blast
      with cells show False by blast
    qed
    have no2: "PosInf \<notin> set ?maxs"
    proof
      assume "PosInf \<in> set ?maxs"
      then obtain k where "k \<in> set ?cs" "get (max_arr c) k = PosInf" by auto
      then obtain cx cy where "cx < ?wc" "cy < ?hc" "get (max_arr c) (cy * ?wc + cx) = PosInf"
        unfolding children_idx_mem by blast
      with cells show False by blast
    qed
    have ex: "(\<exists>k \<in> set ?cs. has_k k) \<longleftrightarrow>
          (\<exists>cx cy. x * 2 \<le> cx \<and> cx < ?wc \<and> cx < x * 2 + 2 \<and> y * 2 \<le> cy \<and> cy < ?hc \<and> cy < y * 2 + 2
                  \<and> has_k (cy * ?wc + cx))" for has_k
      unfolding Bex_def children_idx_mem by blast
    have "isFinite (minFinite ?mins) \<longleftrightarrow> (\<exists>k \<in> set ?cs. isFinite (get (min_arr c) k))"
      by (simp add: minFinite_isFinite [OF no1])
    also have "\<dots> \<longleftrightarrow> has_finite raster w h (?s * 2) x y"
      unfolding ex has_finite_children [OF s wc hc] using cells by blast
    finally have a: "isFinite (minFinite ?mins) \<longleftrightarrow> has_finite raster w h (?s * 2) x y" .
    have "isFinite (maxFinite ?maxs) \<longleftrightarrow> (\<exists>k \<in> set ?cs. isFinite (get (max_arr c) k))"
      by (simp add: maxFinite_isFinite [OF no2])
    also have "\<dots> \<longleftrightarrow> has_finite raster w h (?s * 2) x y"
      unfolding ex has_finite_children [OF s wc hc] using cells by blast
    finally have b: "isFinite (maxFinite ?maxs) \<longleftrightarrow> has_finite raster w h (?s * 2) x y" .
    have c: "minFinite ?mins \<noteq> NegInf"
    proof
      assume "minFinite ?mins = NegInf"
      with minFinite_props(2) [of ?mins] have "NegInf \<in> set ?mins" by simp
      with no1 show False ..
    qed
    have d: "maxFinite ?maxs \<noteq> PosInf"
    proof
      assume "maxFinite ?maxs = PosInf"
      with maxFinite_props(2) [of ?maxs] have "PosInf \<in> set ?maxs" by simp
      with no2 show False ..
    qed
    from a b c d show ?thesis unfolding mn mx sp by simp
  qed
  from s w' h' cell show ?thesis
    unfolding summarises_def by (simp add: sp)
qed


lemma div_eq_iff_range:
  fixes s i x :: nat
  assumes "1 \<le> s"
  shows "i div s = x \<longleftrightarrow> x * s \<le> i \<and> i < (x + 1) * s"
proof
  assume "i div s = x"
  then show "x * s \<le> i \<and> i < (x + 1) * s"
    using assms dividend_less_div_times [of s i] by (auto simp: add.commute)
next
  assume "x * s \<le> i \<and> i < (x + 1) * s"
  then show "i div s = x"
    by (intro div_nat_eqI) (simp_all add: mult.commute)
qed

lemma footprint_mem:
  "k \<in> set (footprint w h s x y) \<longleftrightarrow>
   (\<exists>i j. k = j * w + i \<and> x * s \<le> i \<and> i < w \<and> i < (x + 1) * s \<and> y * s \<le> j \<and> j < h \<and> j < (y + 1) * s)"
proof -
  have "k \<in> set (footprint w h s x y) \<longleftrightarrow>
        (\<exists>i j. k = j * w + i \<and> i \<in> set [x * s..<min w ((x + 1) * s)] \<and> j \<in> set [y * s..<min h ((y + 1) * s)])"
    unfolding footprint_def set_grid by blast
  also have "\<dots> \<longleftrightarrow> (\<exists>i j. k = j * w + i \<and> x * s \<le> i \<and> i < w \<and> i < (x + 1) * s \<and> y * s \<le> j \<and> j < h \<and> j < (y + 1) * s)"
    by (simp only: set_upt atLeastLessThan_iff min_less_iff_conj conj_assoc)
  finally show ?thesis .
qed

lemma has_finite_footprint:
  assumes "1 \<le> s"
  shows "has_finite raster w h s x y \<longleftrightarrow> (\<exists>k \<in> set (footprint w h s x y). isFinite (raster ! k))"
proof
  assume "has_finite raster w h s x y"
  then obtain i j where ij: "i < w" "j < h" "i div s = x" "j div s = y" "isFinite (raster ! (j * w + i))"
    unfolding has_finite_def by blast
  from ij(3,4) have "x * s \<le> i \<and> i < (x + 1) * s" "y * s \<le> j \<and> j < (y + 1) * s"
    using div_eq_iff_range [OF assms] by blast+
  with ij(1,2) have "j * w + i \<in> set (footprint w h s x y)"
    unfolding footprint_mem by blast
  with ij(5) show "\<exists>k \<in> set (footprint w h s x y). isFinite (raster ! k)" by blast
next
  assume "\<exists>k \<in> set (footprint w h s x y). isFinite (raster ! k)"
  then obtain i j where ij: "x * s \<le> i" "i < w" "i < (x + 1) * s" "y * s \<le> j" "j < h" "j < (y + 1) * s"
    "isFinite (raster ! (j * w + i))"
    unfolding Bex_def footprint_mem by blast
  then have "i div s = x" "j div s = y"
    using div_eq_iff_range [OF assms] by blast+
  with ij show "has_finite raster w h s x y"
    unfolding has_finite_def by blast
qed

lemma only_PosInf: "v \<noteq> NaN \<Longrightarrow> v \<noteq> NegInf \<Longrightarrow> \<not> isFinite v \<Longrightarrow> v = PosInf"
  and only_NegInf: "v \<noteq> NaN \<Longrightarrow> v \<noteq> PosInf \<Longrightarrow> \<not> isFinite v \<Longrightarrow> v = NegInf"
  by (cases v; simp)+

lemma levels_summarise:
  assumes "length raster = w * h" and "\<forall>v \<in> set raster. v = NaN \<or> isFinite v"
    and "\<forall>v \<in> set raster. float32 v"
    and "l < length (levels (ContourMipmap raster w h))"
  shows "summarises raster w h (levels (ContourMipmap raster w h) ! l)"
proof -
  let ?b = "\<lparr> min_arr = raster, max_arr = raster, width = w, height = h, scale = 1 \<rparr>"
  let ?ls = "levels (ContourMipmap raster w h)"
  let ?P = "\<lambda>c. summarises raster w h c \<and> float32_level c"
  have ne: "?ls \<noteq> []" using finest_level [of raster w h] by simp
  have "last ?ls = ?b"
    using build_last [of ?b "[]"] by (simp add: ContourMipmap_def)
  then have base: "?P (last ?ls)"
    using summarises_base [OF assms(1,2)] assms(3) by (simp add: float32_level_def)
  have step: "?P (mipmapReduce c)" if "?P c" for c
    using that by (simp add: summarises_reduce float32_level_reduce)
  from chain_all [of ?ls ?P, OF levels_chain ne base step assms(4)]
  show ?thesis by simp
qed

text \<open>
  C3, as the code has it. For a raster of \<open>w * h\<close> samples, each a float32 value
  that is finite or \<open>NaN\<close>, and every cell of every level: the minimum of the cell is
  not finite if and only if every sample of the raster under the cell is \<open>NaN\<close>, and so
  is the maximum. Such a cell holds
  \<open>NaN\<close>/\<open>NaN\<close> at the finest level, which is the raster itself, and
  \<open>+Infinity\<close>/\<open>-Infinity\<close>, the start values of the two reducers, at every coarser
  level; it never holds the 0 of the fresh array.
\<close>

theorem cell_nonfinite_iff:
  assumes "length raster = w * h" and "\<forall>v \<in> set raster. v = NaN \<or> isFinite v"
    and "\<forall>v \<in> set raster. float32 v"
    and "l < length (levels (ContourMipmap raster w h))"
    and "x < width (levels (ContourMipmap raster w h) ! l)"
    and "y < height (levels (ContourMipmap raster w h) ! l)"
  shows "(let lv = levels (ContourMipmap raster w h) ! l;
              mn = get (min_arr lv) (width lv * y + x);
              mx = get (max_arr lv) (width lv * y + x);
              fp = footprint w h (scale lv) x y
          in (\<not> isFinite mn \<longleftrightarrow> (\<forall>k \<in> set fp. raster ! k = NaN))
             \<and> (\<not> isFinite mx \<longleftrightarrow> (\<forall>k \<in> set fp. raster ! k = NaN))
             \<and> (\<not> isFinite mn \<longrightarrow>
                  (if Suc l = length (levels (ContourMipmap raster w h))
                   then mn = NaN \<and> mx = NaN else mn = PosInf \<and> mx = NegInf)))"
proof -
  let ?ls = "levels (ContourMipmap raster w h)"
  let ?lv = "?ls ! l"
  let ?mn = "get (min_arr ?lv) (width ?lv * y + x)" and ?mx = "get (max_arr ?lv) (width ?lv * y + x)"
  let ?fp = "footprint w h (scale ?lv) x y"
  have sm: "summarises raster w h ?lv" by (rule levels_summarise [OF assms(1-4)])
  have idx: "width ?lv * y + x = y * width ?lv + x" by simp
  from sm have s: "1 \<le> scale ?lv"
    unfolding summarises_def by blast
  from sm assms(5,6) have cell: "(isFinite ?mn \<longleftrightarrow> has_finite raster w h (scale ?lv) x y)
             \<and> (isFinite ?mx \<longleftrightarrow> has_finite raster w h (scale ?lv) x y)
             \<and> ?mn \<noteq> NegInf \<and> ?mx \<noteq> PosInf"
    unfolding summarises_def idx by blast
  have inr: "k < length raster" if "k \<in> set ?fp" for k
  proof -
    from that obtain i j where k: "k = j * w + i" "i < w" "j < h"
      unfolding footprint_mem by blast
    have "j * w + w \<le> h * w"
      using k(3) by (metis Suc_leI mult_Suc mult_le_mono1 add.commute)
    then show ?thesis using k(1,2) assms(1) by (simp add: mult.commute)
  qed
  have "\<not> isFinite (raster ! k) \<longleftrightarrow> raster ! k = NaN" if "k \<in> set ?fp" for k
  proof -
    have "raster ! k \<in> set raster" using inr [OF that] by simp
    with assms(2) have "raster ! k = NaN \<or> isFinite (raster ! k)" by blast
    then show ?thesis by auto
  qed
  then have all: "(\<forall>k \<in> set ?fp. raster ! k = NaN) \<longleftrightarrow> \<not> has_finite raster w h (scale ?lv) x y"
    unfolding has_finite_footprint [OF s] by blast
  have a: "\<not> isFinite ?mn \<longleftrightarrow> (\<forall>k \<in> set ?fp. raster ! k = NaN)"
    and b: "\<not> isFinite ?mx \<longleftrightarrow> (\<forall>k \<in> set ?fp. raster ! k = NaN)"
    using cell all by simp_all
  have c: "(if Suc l = length ?ls then ?mn = NaN \<and> ?mx = NaN else ?mn = PosInf \<and> ?mx = NegInf)"
    if nf: "\<not> isFinite ?mn"
  proof (cases "Suc l = length ?ls")
    case True
    then have "?ls \<noteq> []" and "l = length ?ls - 1" by auto
    then have "?lv = last ?ls" by (simp add: last_conv_nth)
    then have mn: "min_arr ?lv = raster" and mx: "max_arr ?lv = raster"
      using finest_level [of raster w h] by simp_all
    have "?mn = NaN"
    proof (cases "width ?lv * y + x < length raster")
      case True
      then have "?mn \<in> set raster" by (simp add: mn get_def)
      with assms(2) nf show ?thesis by blast
    next
      case False
      then show ?thesis by (simp add: mn get_def)
    qed
    then show ?thesis using True by (simp add: mn mx)
  next
    case False
    then have sl: "Suc l < length ?ls" using assms(4) by simp
    then have p: "?lv = mipmapReduce (?ls ! Suc l)"
      using levels_chain [of raster w h] unfolding chain_def by blast
    let ?c = "?ls ! Suc l"
    have x: "x < (width ?c + 1) div 2" and y: "y < (height ?c + 1) div 2"
      using assms(5,6) unfolding p by (simp_all add: mipmapReduce_def)
    have "float32_level ?c" using levels_float32 [OF assms(3) sl] .
    then have "?mn \<noteq> NaN" "?mx \<noteq> NaN"
      using mipmapReduce_cell [OF _ x y] minFinite_props(1) maxFinite_props(1)
      unfolding p by (simp_all add: mult.commute)
    moreover have "\<not> isFinite ?mx" using nf a b by simp
    ultimately have "?mn \<noteq> NaN \<and> ?mn \<noteq> NegInf \<and> \<not> isFinite ?mn"
      "?mx \<noteq> NaN \<and> ?mx \<noteq> PosInf \<and> \<not> isFinite ?mx"
      using nf cell by blast+
    then have "?mn = PosInf" "?mx = NegInf"
      by (simp_all add: only_PosInf only_NegInf)
    then show ?thesis using False by simp
  qed
  from a b c show ?thesis by (simp add: Let_def)
qed

lemma gap_levels:
  "levels gap = [\<lparr>min_arr = [PosInf], max_arr = [NegInf], width = 1, height = 1, scale = 2\<rparr>,
                 \<lparr>min_arr = [NaN, NaN], max_arr = [NaN, NaN], width = 2, height = 1, scale = 1\<rparr>]"
  by code_simp

lemma gap_footprint: "footprint 2 1 2 0 0 = [0, 1]"
  by (simp add: footprint_def upt_rec)

theorem cell_nonfinite_iff_witness:
  "length [NaN, NaN :: rat jsnum] = 2 * 1
   \<and> \<not> isFinite (get (min_arr (levels gap ! 0)) 0)
   \<and> get (min_arr (levels gap ! 0)) 0 = PosInf \<and> get (max_arr (levels gap ! 0)) 0 = NegInf"
proof -
  have l: "levels (ContourMipmap [NaN, NaN :: rat jsnum] 2 1) = levels gap"
    by (simp add: gap_def)
  have f: "footprint 2 1 (scale (levels gap ! 0)) 0 0 = [0, 1]"
    unfolding gap_levels using gap_footprint by simp
  have "length [NaN, NaN :: rat jsnum] = 2 * 1" "\<forall>v \<in> set [NaN, NaN :: rat jsnum]. v = NaN \<or> isFinite v"
    "\<forall>v \<in> set [NaN, NaN :: rat jsnum]. float32 v"
    "0 < length (levels gap)" "0 < width (levels gap ! 0)" "0 < height (levels gap ! 0)"
    unfolding gap_levels by (simp_all add: float32_def)
  from cell_nonfinite_iff [of "[NaN, NaN :: rat jsnum]" 2 1 0 0 0, unfolded l, OF this]
  have "(\<not> isFinite (get (min_arr (levels gap ! 0)) 0) \<longleftrightarrow> (\<forall>k \<in> set [0, 1]. [NaN, NaN :: rat jsnum] ! k = NaN))
      \<and> (\<not> isFinite (get (min_arr (levels gap ! 0)) 0) \<longrightarrow>
           get (min_arr (levels gap ! 0)) 0 = PosInf \<and> get (max_arr (levels gap ! 0)) 0 = NegInf)"
    unfolding Let_def f by (simp add: gap_levels)
  then show ?thesis by simp
qed

text \<open>
  The claim as stated fails above the finest level: both samples under the root of
  \<open>gap\<close> are \<open>NaN\<close>, and the root holds \<open>+Infinity\<close>/\<open>-Infinity\<close>, not \<open>NaN\<close>/\<open>NaN\<close>.
\<close>

theorem nan_cell_counterexample:
  "footprint 2 1 (scale (levels gap ! 0)) 0 0 = [0, 1]
   \<and> [NaN, NaN :: rat jsnum] ! 0 = NaN \<and> [NaN, NaN :: rat jsnum] ! 1 = NaN
   \<and> get (min_arr (levels gap ! 0)) 0 = PosInf \<and> get (max_arr (levels gap ! 0)) 0 = NegInf
   \<and> get (min_arr (levels gap ! 0)) 0 \<noteq> NaN"
proof -
  have "scale (levels gap ! 0) = 2" unfolding gap_levels by simp
  then have "footprint 2 1 (scale (levels gap ! 0)) 0 0 = [0, 1]"
    using gap_footprint by simp
  moreover have "get (min_arr (levels gap ! 0)) 0 = PosInf" "get (max_arr (levels gap ! 0)) 0 = NegInf"
    unfolding gap_levels by (simp_all add: get_def)
  ultimately show ?thesis by simp
qed

text \<open>
  Why the samples have to be float32 values: a finite sample beyond the range of float32
  is stored as \<open>+Infinity\<close> in the next level.
\<close>

lemma steep_root:
  "get (min_arr (levels steep ! 0)) 0 = Fin 5 \<and> get (max_arr (levels steep ! 0)) 0 = PosInf"
  by code_simp
section \<open>The walker stays within the pyramid\<close>

lemma finest_not_within:
  assumes "Suc l = length (levels this)"
    and "min_arr (last (levels this)) = max_arr (last (levels this))"
    and "c \<noteq> NaN"
  shows "evaluate this c m l x y \<noteq> Inr WITHIN"
proof -
  from assms(1) have "levels this \<noteq> []" and "l = length (levels this) - 1"
    by auto
  then have l: "levels this ! l = last (levels this)"
    by (simp add: last_conv_nth)
  show ?thesis
    using assms(1,3) unfolding evaluate_def l Let_def assms(2)
    by (cases "get (max_arr (last (levels this))) (width (last (levels this)) * y + x)")
       (auto simp: js_ge_def)
qed

lemma within_not_finest:
  assumes "evaluate this c m l x y = Inr WITHIN"
    and "min_arr (last (levels this)) = max_arr (last (levels this))"
    and "c \<noteq> NaN"
  shows "Suc l < length (levels this)"
proof -
  from assms(1) have "l < length (levels this)"
    by (simp add: evaluate_def split: if_splits)
  moreover have "Suc l \<noteq> length (levels this)"
    using finest_not_within [OF _ assms(2,3)] assms(1) by blast
  ultimately show ?thesis by simp
qed

lemma evaluate_Inr: "l < length (levels this) \<Longrightarrow> \<exists>e. evaluate this c m l x y = Inr e"
  by (simp add: evaluate_def Let_def)

lemma run_ok_seq: "(\<forall>r \<in> set rs. run_ok this r) \<Longrightarrow> run_ok this (seq rs)"
proof (induction rs)
  case Nil
  then show ?case by (simp add: run_ok_def)
next
  case (Cons r rs)
  then obtain evs evs' where "r = Inr evs" "seq rs = Inr evs'"
    "\<forall>e \<in> set evs. ev_level e < length (levels this)"
    "\<forall>e \<in> set evs'. ev_level e < length (levels this)"
    by (auto simp: run_ok_def)
  then show ?case by (auto simp: run_ok_def)
qed

lemma edgeH_ok:
  "min_arr (last (levels this)) = max_arr (last (levels this)) \<Longrightarrow> c \<noteq> NaN \<Longrightarrow>
   l < length (levels this) \<Longrightarrow> run_ok this (edgeH this c m l x y)"
proof (induction this c m l x y rule: edgeH.induct)
  case (1 this c m l x y)
  note fin = "1.prems"(1,2)
  from "1.prems"(3) obtain e1 e2 where e: "evaluate this c m l x y = Inr e1" "evaluate this c m l (x + 1) y = Inr e2"
    using evaluate_Inr [of l this c m x y] evaluate_Inr [of l this c m "x + 1" y] by blast
  show ?case
  proof (cases "(e1 = ABOVE \<and> e2 = BELOW) \<or> (e2 = ABOVE \<and> e1 = BELOW) \<or> \<not> (e1 = WITHIN \<or> e2 = WITHIN)")
    case True
    then show ?thesis using "1.prems"(3)
      unfolding edgeH.simps [of this c m l x y] e by (auto simp: run_ok_def)
  next
    case False
    then have w: "e1 = WITHIN \<or> e2 = WITHIN" and n1: "\<not> (e1 = ABOVE \<and> e2 = BELOW)" and n2: "\<not> (e2 = ABOVE \<and> e1 = BELOW)"
      by auto
    from w have "Suc l < length (levels this)"
    proof
      assume "e1 = WITHIN"
      with e(1) have "evaluate this c m l x y = Inr WITHIN" by simp
      then show ?thesis by (rule within_not_finest [OF _ fin])
    next
      assume "e2 = WITHIN"
      with e(2) have "evaluate this c m l (x + 1) y = Inr WITHIN" by simp
      then show ?thesis by (rule within_not_finest [OF _ fin])
    qed
    then have "run_ok this (edgeH this c m (l + 1) (x * 2 + 1) (y * 2 + 0))"
      "run_ok this (edgeH this c m (l + 1) (x * 2 + 1) (y * 2 + 1))"
      using "1.IH" [OF e(1) e(2) n1 n2 w fin] by simp_all
    then have "run_ok this (seq [edgeH this c m (l + 1) (x * 2 + 1) (y * 2 + 0), edgeH this c m (l + 1) (x * 2 + 1) (y * 2 + 1)])"
      by (intro run_ok_seq) simp
    then show ?thesis using w n1 n2
      unfolding edgeH.simps [of this c m l x y] e by auto
  qed
qed

lemma edgeV_ok:
  "min_arr (last (levels this)) = max_arr (last (levels this)) \<Longrightarrow> c \<noteq> NaN \<Longrightarrow>
   l < length (levels this) \<Longrightarrow> run_ok this (edgeV this c m l x y)"
proof (induction this c m l x y rule: edgeV.induct)
  case (1 this c m l x y)
  note fin = "1.prems"(1,2)
  from "1.prems"(3) obtain e1 e2 where e: "evaluate this c m l x y = Inr e1" "evaluate this c m l x (y + 1) = Inr e2"
    using evaluate_Inr [of l this c m x y] evaluate_Inr [of l this c m x "y + 1"] by blast
  show ?case
  proof (cases "(e1 = ABOVE \<and> e2 = BELOW) \<or> (e2 = ABOVE \<and> e1 = BELOW) \<or> \<not> (e1 = WITHIN \<or> e2 = WITHIN)")
    case True
    then show ?thesis using "1.prems"(3)
      unfolding edgeV.simps [of this c m l x y] e by (auto simp: run_ok_def)
  next
    case False
    then have w: "e1 = WITHIN \<or> e2 = WITHIN" and n1: "\<not> (e1 = ABOVE \<and> e2 = BELOW)" and n2: "\<not> (e2 = ABOVE \<and> e1 = BELOW)"
      by auto
    from w have "Suc l < length (levels this)"
    proof
      assume "e1 = WITHIN"
      with e(1) have "evaluate this c m l x y = Inr WITHIN" by simp
      then show ?thesis by (rule within_not_finest [OF _ fin])
    next
      assume "e2 = WITHIN"
      with e(2) have "evaluate this c m l x (y + 1) = Inr WITHIN" by simp
      then show ?thesis by (rule within_not_finest [OF _ fin])
    qed
    then have "run_ok this (edgeV this c m (l + 1) (x * 2 + 0) (y * 2 + 1))"
      "run_ok this (edgeV this c m (l + 1) (x * 2 + 1) (y * 2 + 1))"
      using "1.IH" [OF e(1) e(2) n1 n2 w fin] by simp_all
    then have "run_ok this (seq [edgeV this c m (l + 1) (x * 2 + 0) (y * 2 + 1), edgeV this c m (l + 1) (x * 2 + 1) (y * 2 + 1)])"
      by (intro run_ok_seq) simp
    then show ?thesis using w n1 n2
      unfolding edgeV.simps [of this c m l x y] e by auto
  qed
qed


lemma node_ok:
  "min_arr (last (levels this)) = max_arr (last (levels this)) \<Longrightarrow> c \<noteq> NaN \<Longrightarrow>
   l < length (levels this) \<Longrightarrow> run_ok this (node this c m l x y)"
proof (induction this c m l x y rule: node.induct)
  case (1 this c m l x y)
  note fin = "1.prems"(1,2)
  from "1.prems"(3) obtain e where e: "evaluate this c m l x y = Inr e"
    using evaluate_Inr [of l this c m x y] by blast
  show ?case
  proof (cases "e = WITHIN")
    case False
    then show ?thesis using "1.prems"(3)
      unfolding node.simps [of this c m l x y] e by (simp add: run_ok_def)
  next
    case True
    with e have "evaluate this c m l x y = Inr WITHIN" by simp
    then have l: "Suc l < length (levels this)" by (rule within_not_finest [OF _ fin])
    then have l': "l + 1 < length (levels this)" by simp
    have "\<forall>r \<in> set [node this c m (l + 1) (x * 2 + 0) (y * 2 + 0),
              node this c m (l + 1) (x * 2 + 1) (y * 2 + 0),
              node this c m (l + 1) (x * 2 + 0) (y * 2 + 1),
              node this c m (l + 1) (x * 2 + 1) (y * 2 + 1),
              edgeH this c m (l + 1) (x * 2 + 0) (y * 2 + 0),
              edgeV this c m (l + 1) (x * 2 + 0) (y * 2 + 0),
              edgeH this c m (l + 1) (x * 2 + 0) (y * 2 + 1),
              edgeV this c m (l + 1) (x * 2 + 1) (y * 2 + 0)]. run_ok this r"
      using "1.IH" [OF e True fin l'] edgeH_ok [OF fin l'] edgeV_ok [OF fin l']
      by simp
    then have "run_ok this (seq [node this c m (l + 1) (x * 2 + 0) (y * 2 + 0),
              node this c m (l + 1) (x * 2 + 1) (y * 2 + 0),
              node this c m (l + 1) (x * 2 + 0) (y * 2 + 1),
              node this c m (l + 1) (x * 2 + 1) (y * 2 + 1),
              edgeH this c m (l + 1) (x * 2 + 0) (y * 2 + 0),
              edgeV this c m (l + 1) (x * 2 + 0) (y * 2 + 0),
              edgeH this c m (l + 1) (x * 2 + 0) (y * 2 + 1),
              edgeV this c m (l + 1) (x * 2 + 1) (y * 2 + 0)])"
      by (rule run_ok_seq)
    then show ?thesis using True
      unfolding node.simps [of this c m l x y] e by simp
  qed
qed

lemma node_past_finest: "length (levels this) \<le> l \<Longrightarrow> node this c m l x y = Inl TypeError"
  by (subst node.simps) (simp add: evaluate_def)

text \<open>
  C4. For every raster and every threshold that is not \<open>NaN\<close>, under the default
  \<open>maxMipmapLevel\<close> and under any other: no cell of the finest level classifies
  \<open>WITHIN\<close> (its minimum and maximum are the same array); the walk returns without
  the \<open>TypeError\<close> of a \<open>this.levels[l]\<close> past the last level, and every callback
  is called at a level of the pyramid; a call of \<open>node\<close> past the finest level would
  throw, so none is made, and the recursion is no deeper than the pyramid. That the walk
  ends for every input is the termination proof of \<open>edgeH\<close>, \<open>edgeV\<close> and
  \<open>node\<close>, whose measure is the number of levels below the cell.
\<close>

theorem walker_stays_in_pyramid:
  assumes "c \<noteq> NaN"
  shows "(\<forall>m x y. evaluate (ContourMipmap raster w h) c m
                    (length (levels (ContourMipmap raster w h)) - 1) x y \<noteq> Inr WITHIN)
       \<and> (\<exists>evs. evaluateContour (ContourMipmap raster w h) c mo = Inr evs
                \<and> (\<forall>e \<in> set evs. ev_level e < length (levels (ContourMipmap raster w h))))
       \<and> (\<forall>m l x y. length (levels (ContourMipmap raster w h)) \<le> l \<longrightarrow>
                      node (ContourMipmap raster w h) c m l x y = Inl TypeError)"
proof -
  let ?cm = "ContourMipmap raster w h"
  have ne: "levels ?cm \<noteq> []" and fin: "min_arr (last (levels ?cm)) = max_arr (last (levels ?cm))"
    using finest_level [of raster w h] by simp_all
  from ne have "Suc (length (levels ?cm) - 1) = length (levels ?cm)" by simp
  then have a: "\<forall>m x y. evaluate ?cm c m (length (levels ?cm) - 1) x y \<noteq> Inr WITHIN"
    using finest_not_within [OF _ fin assms] by blast
  from ne have "0 < length (levels ?cm)" by simp
  then have "run_ok ?cm (node ?cm c (effectiveMax ?cm mo) 0 0 0)"
    by (rule node_ok [OF fin assms])
  then have b: "\<exists>evs. evaluateContour ?cm c mo = Inr evs
                \<and> (\<forall>e \<in> set evs. ev_level e < length (levels ?cm))"
    by (simp add: run_ok_def evaluateContour_def)
  from a b node_past_finest show ?thesis by blast
qed

lemma pixel_levels:
  "levels pixel = [\<lparr>min_arr = [Fin 1], max_arr = [Fin 1], width = 1, height = 1, scale = 1\<rparr>]"
  by code_simp

theorem walker_stays_in_pyramid_witness:
  "Fin 5 \<noteq> (NaN :: rat jsnum)
   \<and> evaluate strip (Fin 5) 3 (length (levels strip) - 1) 1 0 \<noteq> Inr WITHIN
   \<and> evaluateContour strip (Fin 5) None \<noteq> Inl TypeError
   \<and> node strip (Fin 5) 3 3 0 0 = Inl TypeError"
proof -
  have l: "ContourMipmap strip_raster 4 1 = strip" by (simp add: strip_def)
  have n: "Fin 5 \<noteq> (NaN :: rat jsnum)" by simp
  note w = walker_stays_in_pyramid [OF n, of strip_raster 4 1 None, unfolded l]
  from w have "evaluate strip (Fin 5) 3 (length (levels strip) - 1) 1 0 \<noteq> Inr WITHIN" by blast
  moreover from w obtain evs where "evaluateContour strip (Fin 5) None = Inr evs" by blast
  moreover have "length (levels strip) \<le> 3" by (simp add: strip_levels)
  with w have "node strip (Fin 5) 3 3 0 0 = Inl TypeError" by blast
  ultimately show ?thesis using n by simp
qed

text \<open>
  With the threshold \<open>NaN\<close> both comparisons of \<open>evaluate\<close> are false: the only
  cell of a one-pixel raster classifies \<open>WITHIN\<close>, and the walk reads a level that
  does not exist.
\<close>

theorem nan_threshold_counterexample:
  "evaluate pixel NaN (effectiveMax pixel None) (length (levels pixel) - 1) 0 0 = Inr WITHIN
   \<and> evaluateContour pixel NaN None = Inl TypeError"
proof -
  have a: "evaluate pixel NaN 1 0 0 0 = Inr WITHIN"
    unfolding evaluate_def pixel_levels by (simp add: get_def js_ge_def)
  have b: "evaluate pixel NaN 1 1 0 0 = Inl TypeError"
    unfolding evaluate_def pixel_levels by simp
  have "node pixel NaN 1 1 0 0 = Inl TypeError"
    unfolding node.simps [of pixel NaN 1 1 0 0] b by simp
  then have "node pixel NaN 1 0 0 0 = Inl TypeError"
    unfolding node.simps [of pixel NaN 1 0 0 0] a by simp
  moreover have "effectiveMax pixel None = 1" "length (levels pixel) - 1 = 0"
    by (simp_all add: effectiveMax_def pixel_levels)
  ultimately show ?thesis using a
    by (simp add: evaluateContour_def)
qed

section \<open>Rings stay closed\<close>












lemma peak_levels:
  "levels peak =
    [\<lparr>min_arr = [Fin 1], max_arr = [Fin 9], width = 1, height = 1, scale = 4\<rparr>,
     \<lparr>min_arr = [Fin 1, Fin 1, Fin 1, Fin 1], max_arr = [Fin 9, Fin 1, Fin 1, Fin 1],
        width = 2, height = 2, scale = 2\<rparr>,
     \<lparr>min_arr = peak_raster, max_arr = peak_raster, width = 3, height = 3, scale = 1\<rparr>]"
  by code_simp

lemma peak_events:
  "evaluateContour peak (Fin 5) None =
     Inr [Leaf 2 0 0 BELOW, Leaf 2 1 0 BELOW, Leaf 2 0 1 BELOW, Leaf 2 1 1 ABOVE,
          Line 2 1 1 1 2, Line 2 2 1 1 1, Leaf 1 1 0 BELOW, Leaf 1 0 1 BELOW, Leaf 1 1 1 BELOW,
          Line 2 2 2 2 1, Line 2 1 2 2 2]"
  by code_simp

lemma peak_segments:
  "segmentsOf peak
     [Leaf 2 0 0 BELOW, Leaf 2 1 0 BELOW, Leaf 2 0 1 BELOW, Leaf 2 1 1 ABOVE,
      Line 2 1 1 1 2, Line 2 2 1 1 1, Leaf 1 1 0 BELOW, Leaf 1 0 1 BELOW, Leaf 1 1 1 BELOW,
      Line 2 2 2 2 1, Line 2 1 2 2 2] =
   [\<lparr>start = (1, 1), endp = (1, 2)\<rparr>, \<lparr>start = (2, 1), endp = (1, 1)\<rparr>,
    \<lparr>start = (1, 2), endp = (2, 2)\<rparr>, \<lparr>start = (2, 2), endp = (2, 1)\<rparr>]"
  by (simp add: segmentsOf_def peak_levels)

lemma peak_stitch:
  "stitchAll [\<lparr>start = (1, 1), endp = (1, 2)\<rparr>, \<lparr>start = (2, 1), endp = (1, 1)\<rparr>,
              \<lparr>start = (1, 2), endp = (2, 2)\<rparr>, \<lparr>start = (2, 2), endp = (2, 1)\<rparr>] =
   \<lparr>heap = [[(2, 1), (1, 1), (1, 2), (2, 2), (2, 1)]], fragmentStart = [], fragmentEnd = [],
      rings = [0], console = []\<rparr>"
  by (simp add: stitchAll_def stitch_step_def join_step_def stitch_init_def map_get_def map_delete_def)


subsection \<open>A kernel of width 0\<close>




subsection \<open>Two points with one key\<close>

text \<open>
  Why the coordinates have to be below 65536: the points \<open>(65536, 1)\<close> and \<open>(0, 2)\<close> have
  the key 131072, the points \<open>(65537, 1)\<close> and \<open>(1, 2)\<close> the key 131073. After the segment
  from \<open>(65536, 1)\<close> to \<open>(65537, 1)\<close> the segment from \<open>(1, 2)\<close> to \<open>(0, 2)\<close> finds that
  fragment under both of its keys, and the loop closes a ring whose ends differ.
\<close>

lemma key_collision:
  "key (65536, 1) = key (0, 2) \<and> key (65537, 1) = key (1, 2)
   \<and> ringsOf (stitchAll [\<lparr>start = (65536, 1), endp = (65537, 1)\<rparr>, \<lparr>start = (1, 2), endp = (0, 2)\<rparr>])
       = [[(65536, 1), (65537, 1), (0, 2)]]"
  by (simp add: stitchAll_def stitch_step_def join_step_def stitch_init_def map_get_def
    map_delete_def ringsOf_def)

subsection \<open>Coordinates of the segments of a small raster\<close>

lemma evaluate_level: "evaluate this c m l x y = Inr e \<Longrightarrow> l < length (levels this)"
  by (simp add: evaluate_def split: if_splits)

lemma evaluate_inside:
  "evaluate this c m l x y = Inr e \<Longrightarrow> e \<noteq> OUTSIDE \<Longrightarrow> x < width (levels this ! l)"
  by (auto simp: evaluate_def Let_def split: if_splits)

lemma seq_all:
  "seq rs = Inr evs \<Longrightarrow> (\<forall>r \<in> set rs. \<forall>es. r = Inr es \<longrightarrow> (\<forall>e \<in> set es. P e))
    \<Longrightarrow> \<forall>e \<in> set evs. P e"
proof (induction rs arbitrary: evs)
  case Nil
  then show ?case by simp
next
  case (Cons r rs)
  from Cons.prems(1) obtain es es' where r: "r = Inr es" and s: "seq rs = Inr es'" and evs: "evs = es @ es'"
    by (cases r; cases "seq rs") auto
  from Cons.IH [OF s] Cons.prems(2) have "\<forall>e \<in> set es'. P e" by simp
  moreover from Cons.prems(2) r have "\<forall>e \<in> set es. P e" by simp
  ultimately show ?case unfolding evs by auto
qed

lemma edgeH_in: "\<forall>evs. edgeH this c m l x y = Inr evs \<longrightarrow> (\<forall>e \<in> set evs. line_in this e)"
proof (induction this c m l x y rule: edgeH.induct)
  case (1 this c m l x y)
  show ?case
  proof (intro allI impI)
    fix evs
    assume r: "edgeH this c m l x y = Inr evs"
    then obtain e1 e2 where e: "evaluate this c m l x y = Inr e1" "evaluate this c m l (x + 1) y = Inr e2"
      unfolding edgeH.simps [of this c m l x y] by (auto split: sum.splits)
    note lv = evaluate_level [OF e(1)]
    consider (a) "e1 = ABOVE \<and> e2 = BELOW" | (b) "\<not> (e1 = ABOVE \<and> e2 = BELOW)" "e2 = ABOVE \<and> e1 = BELOW"
      | (c) "\<not> (e1 = ABOVE \<and> e2 = BELOW)" "\<not> (e2 = ABOVE \<and> e1 = BELOW)" "e1 = WITHIN \<or> e2 = WITHIN"
      | (d) "\<not> (e1 = ABOVE \<and> e2 = BELOW)" "\<not> (e2 = ABOVE \<and> e1 = BELOW)" "\<not> (e1 = WITHIN \<or> e2 = WITHIN)"
      by blast
    then show "\<forall>e \<in> set evs. line_in this e"
    proof cases
      case a
      then have "x + 1 < width (levels this ! l)" using evaluate_inside [OF e(2)] by simp
      moreover from a r have "evs = [Line l (x + 1) (y + 1) (x + 1) y]"
        unfolding edgeH.simps [of this c m l x y] e by simp
      ultimately show ?thesis using lv by simp
    next
      case b
      then have "x + 1 < width (levels this ! l)" using evaluate_inside [OF e(2)] by simp
      moreover from b r have "evs = [Line l (x + 1) y (x + 1) (y + 1)]"
        unfolding edgeH.simps [of this c m l x y] e by simp
      ultimately show ?thesis using lv by simp
    next
      case c
      from c r have s: "seq [edgeH this c m (l + 1) (x * 2 + 1) (y * 2 + 0),
              edgeH this c m (l + 1) (x * 2 + 1) (y * 2 + 1)] = Inr evs"
        unfolding edgeH.simps [of this c m l x y] e by (auto split: if_splits)
      show ?thesis
        using "1.IH" [OF e(1) e(2) c(1) c(2) c(3)] by (intro seq_all [OF s]) simp
    next
      case d
      with r have "evs = []"
        unfolding edgeH.simps [of this c m l x y] e by simp
      then show ?thesis by simp
    qed
  qed
qed

lemma edgeV_in: "\<forall>evs. edgeV this c m l x y = Inr evs \<longrightarrow> (\<forall>e \<in> set evs. line_in this e)"
proof (induction this c m l x y rule: edgeV.induct)
  case (1 this c m l x y)
  show ?case
  proof (intro allI impI)
    fix evs
    assume r: "edgeV this c m l x y = Inr evs"
    then obtain e1 e2 where e: "evaluate this c m l x y = Inr e1" "evaluate this c m l x (y + 1) = Inr e2"
      unfolding edgeV.simps [of this c m l x y] by (auto split: sum.splits)
    note lv = evaluate_level [OF e(1)]
    consider (a) "e1 = ABOVE \<and> e2 = BELOW" | (b) "\<not> (e1 = ABOVE \<and> e2 = BELOW)" "e2 = ABOVE \<and> e1 = BELOW"
      | (c) "\<not> (e1 = ABOVE \<and> e2 = BELOW)" "\<not> (e2 = ABOVE \<and> e1 = BELOW)" "e1 = WITHIN \<or> e2 = WITHIN"
      | (d) "\<not> (e1 = ABOVE \<and> e2 = BELOW)" "\<not> (e2 = ABOVE \<and> e1 = BELOW)" "\<not> (e1 = WITHIN \<or> e2 = WITHIN)"
      by blast
    then show "\<forall>e \<in> set evs. line_in this e"
    proof cases
      case a
      then have "x < width (levels this ! l)" using evaluate_inside [OF e(1)] by simp
      moreover from a r have "evs = [Line l x (y + 1) (x + 1) (y + 1)]"
        unfolding edgeV.simps [of this c m l x y] e by simp
      ultimately show ?thesis using lv by simp
    next
      case b
      then have "x < width (levels this ! l)" using evaluate_inside [OF e(1)] by simp
      moreover from b r have "evs = [Line l (x + 1) (y + 1) x (y + 1)]"
        unfolding edgeV.simps [of this c m l x y] e by simp
      ultimately show ?thesis using lv by simp
    next
      case c
      from c r have s: "seq [edgeV this c m (l + 1) (x * 2 + 0) (y * 2 + 1),
              edgeV this c m (l + 1) (x * 2 + 1) (y * 2 + 1)] = Inr evs"
        unfolding edgeV.simps [of this c m l x y] e by (auto split: if_splits)
      show ?thesis
        using "1.IH" [OF e(1) e(2) c(1) c(2) c(3)] by (intro seq_all [OF s]) simp
    next
      case d
      with r have "evs = []"
        unfolding edgeV.simps [of this c m l x y] e by simp
      then show ?thesis by simp
    qed
  qed
qed

lemma node_in: "\<forall>evs. node this c m l x y = Inr evs \<longrightarrow> (\<forall>e \<in> set evs. line_in this e)"
proof (induction this c m l x y rule: node.induct)
  case (1 this c m l x y)
  show ?case
  proof (intro allI impI)
    fix evs
    assume r: "node this c m l x y = Inr evs"
    then obtain e where e: "evaluate this c m l x y = Inr e"
      unfolding node.simps [of this c m l x y] by (auto split: sum.splits)
    show "\<forall>e \<in> set evs. line_in this e"
    proof (cases "e = WITHIN")
      case False
      with r have "evs = [Leaf l x y e]"
        unfolding node.simps [of this c m l x y] e by simp
      then show ?thesis by simp
    next
      case True
      with r have s: "seq [node this c m (l + 1) (x * 2 + 0) (y * 2 + 0),
              node this c m (l + 1) (x * 2 + 1) (y * 2 + 0),
              node this c m (l + 1) (x * 2 + 0) (y * 2 + 1),
              node this c m (l + 1) (x * 2 + 1) (y * 2 + 1),
              edgeH this c m (l + 1) (x * 2 + 0) (y * 2 + 0),
              edgeV this c m (l + 1) (x * 2 + 0) (y * 2 + 0),
              edgeH this c m (l + 1) (x * 2 + 0) (y * 2 + 1),
              edgeV this c m (l + 1) (x * 2 + 1) (y * 2 + 0)] = Inr evs"
        unfolding node.simps [of this c m l x y] e by simp
      show ?thesis
        using "1.IH" [OF e True] edgeH_in [of this c m] edgeV_in [of this c m]
        by (intro seq_all [OF s]) simp
    qed
  qed
qed

lemma scale_levels:
  assumes "chain ls" and "scale (last ls) = 1"
  shows "l < length ls \<Longrightarrow> scale (ls ! l) = 2 ^ (length ls - 1 - l)"
proof (induction "length ls - 1 - l" arbitrary: l)
  case 0
  then have "l = length ls - 1" and "ls \<noteq> []" by auto
  then show ?case using assms(2) by (simp add: last_conv_nth)
next
  case (Suc k)
  then have k: "k = length ls - 1 - Suc l" and s: "Suc l < length ls" by simp_all
  then have "scale (ls ! Suc l) = 2 ^ (length ls - 1 - Suc l)" using Suc.hyps(1) by blast
  moreover have "ls ! l = mipmapReduce (ls ! Suc l)"
    using assms(1) s unfolding chain_def by blast
  moreover have "length ls - 1 - l = Suc (length ls - 1 - Suc l)" using s by simp
  ultimately show ?case by (simp add: mipmapReduce_def)
qed

lemma width_levels:
  assumes "l < length (levels (ContourMipmap raster w h))"
  shows "scale (levels (ContourMipmap raster w h) ! l) * width (levels (ContourMipmap raster w h) ! l) + 1
      \<le> w + scale (levels (ContourMipmap raster w h) ! l)"
proof -
  let ?b = "\<lparr> min_arr = raster, max_arr = raster, width = w, height = h, scale = 1 \<rparr>"
  let ?ls = "levels (ContourMipmap raster w h)"
  let ?P = "\<lambda>lv :: rat level. scale lv * width lv + 1 \<le> w + scale lv"
  have ne: "?ls \<noteq> []" using finest_level [of raster w h] by simp
  have "last ?ls = ?b"
    using build_last [of ?b "[]"] by (simp add: ContourMipmap_def)
  then have base: "?P (last ?ls)" by simp
  have step: "?P (mipmapReduce c)" if "?P c" for c :: "rat level"
  proof -
    have "2 * ((width c + 1) div 2) \<le> width c + 1" by simp
    then have "scale c * (2 * ((width c + 1) div 2)) \<le> scale c * (width c + 1)"
      by (rule mult_le_mono2)
    with that show ?thesis by (simp add: mipmapReduce_def algebra_simps)
  qed
  from chain_all [of ?ls ?P, OF levels_chain ne base step assms] show ?thesis .
qed

lemma small_scale:
  assumes "1 \<le> w" and "1 \<le> h" and "w \<le> 32768" and "h \<le> 32768"
    and "l < length (levels (ContourMipmap raster w h))"
  shows "scale (levels (ContourMipmap raster w h) ! l) \<le> 32768"
proof -
  let ?b = "\<lparr> min_arr = raster, max_arr = raster, width = w, height = h, scale = 1 \<rparr>"
  let ?ls = "levels (ContourMipmap raster w h)"
  have "last ?ls = ?b"
    using build_last [of ?b "[]"] by (simp add: ContourMipmap_def)
  then have "scale (last ?ls) = 1" by simp
  from scale_levels [OF levels_chain this assms(5)]
  have s: "scale (?ls ! l) = 2 ^ (length ?ls - 1 - l)" .
  have "length ?ls = ceillog2 (max w h) + 1"
    using build_depth [of ?b "[]"] assms(1,2) by (simp add: ContourMipmap_def)
  moreover have "ceillog2 (max w h) \<le> 15"
    using assms by (subst ceillog2_le_iff) auto
  ultimately have "length ?ls - 1 - l \<le> 15" by simp
  then have "(2 :: nat) ^ (length ?ls - 1 - l) \<le> 2 ^ 15"
    by (rule power_increasing) simp
  with s show ?thesis by simp
qed

text \<open>
  The segments of a raster of at most 32768 columns and rows have their coordinates below
  65536: a level of scale \<open>s\<close> has \<open>s\<close> at most 32768 and ends before column
  \<open>w + s\<close>.
\<close>

lemma coordinates_small:
  assumes "1 \<le> w" and "1 \<le> h" and "w \<le> 32768" and "h \<le> 32768"
    and "evaluateContour (ContourMipmap raster w h) c mo = Inr evs"
  shows "\<forall>sg \<in> set (segmentsOf (ContourMipmap raster w h) evs).
           fst (start sg) < 65536 \<and> fst (endp sg) < 65536"
proof
  let ?cm = "ContourMipmap raster w h"
  fix sg
  assume "sg \<in> set (segmentsOf ?cm evs)"
  then obtain e where e: "e \<in> set evs" and sg: "sg \<in> set (addLine ?cm e)"
    by (auto simp: segmentsOf_def)
  from assms(5) e have li: "line_in ?cm e"
    using node_in [of ?cm c "effectiveMax ?cm mo" 0 0 0] by (simp add: evaluateContour_def)
  from sg obtain l x1 y1 x2 y2 where el: "e = Line l x1 y1 x2 y2"
    by (cases e) auto
  let ?lv = "levels ?cm ! l"
  from li el have l: "l < length (levels ?cm)" and x: "x1 \<le> width ?lv" "x2 \<le> width ?lv"
    by simp_all
  have s: "scale ?lv \<le> 32768" using small_scale [OF assms(1-4) l] .
  have wd: "scale ?lv * width ?lv + 1 \<le> w + scale ?lv" using width_levels [OF l] .
  have "scale ?lv * x1 \<le> scale ?lv * width ?lv" "scale ?lv * x2 \<le> scale ?lv * width ?lv"
    using x by simp_all
  with wd s assms(3) have "scale ?lv * x1 < 65536" "scale ?lv * x2 < 65536" by linarith+
  moreover from sg el have "sg = \<lparr> start = (scale ?lv * x1, scale ?lv * y1), endp = (scale ?lv * x2, scale ?lv * y2) \<rparr>"
    by (simp add: Let_def)
  ultimately show "fst (start sg) < 65536 \<and> fst (endp sg) < 65536" by simp
qed

subsection \<open>A raster wider than 65536 columns\<close>





















section \<open>The depth cap of the classification\<close>

text \<open>
  C6. In \<open>evaluate\<close>, for a cell within the level whose minimum and maximum are finite:
  at a level at or past the maximal depth \<open>md\<close>, a cell that would classify \<open>WITHIN\<close>
  (as it does under any cap \<open>md'\<close> above the level) is classified \<open>ABOVE\<close>, and
  every other classification is the same as without the cap; a cell whose minimum is at
  least the threshold is \<open>ABOVE\<close> and a cell whose maximum is below it is \<open>BELOW\<close> (or
  \<open>ABOVE\<close> by the first test) whatever the cap. The cap defaults to the number of levels.
\<close>

theorem evaluate_depth_cap:
  assumes "l < length (levels this)"
    and "x < width (levels this ! l)" and "y < height (levels this ! l)"
    and "isFinite (get (min_arr (levels this ! l)) (width (levels this ! l) * y + x))"
    and "isFinite (get (max_arr (levels this ! l)) (width (levels this ! l) * y + x))"
  shows "(md \<le> l \<and> l < md' \<longrightarrow>
           evaluate this c md l x y =
             (if evaluate this c md' l x y = Inr WITHIN then Inr ABOVE else evaluate this c md' l x y))
       \<and> (js_ge (get (min_arr (levels this ! l)) (width (levels this ! l) * y + x)) c \<longrightarrow>
           evaluate this c md l x y = Inr ABOVE)
       \<and> (\<not> js_ge (get (min_arr (levels this ! l)) (width (levels this ! l) * y + x)) c
           \<and> js_lt (get (max_arr (levels this ! l)) (width (levels this ! l) * y + x)) c \<longrightarrow>
           evaluate this c md l x y = Inr BELOW)
       \<and> effectiveMax this None = length (levels this)"
  using assms by (simp add: evaluate_def effectiveMax_def Let_def)

theorem evaluate_depth_cap_witness:
  "evaluate strip (Fin 5) 1 1 0 0 = Inr ABOVE
   \<and> evaluate strip (Fin 5) 2 1 0 0 = Inr WITHIN"
proof -
  have w: "evaluate strip (Fin 5) 2 1 0 0 = Inr WITHIN"
    unfolding evaluate_def strip_levels by (simp add: get_def js_ge_def)
  have "evaluate strip (Fin 5) 1 1 0 0 =
          (if evaluate strip (Fin 5) 2 1 0 0 = Inr WITHIN then Inr ABOVE else evaluate strip (Fin 5) 2 1 0 0)"
    using evaluate_depth_cap [of 1 strip 0 0 1 2 "Fin 5"] unfolding strip_levels by (simp add: get_def)
  with w show ?thesis by simp
qed
section \<open>A cell and the cells beneath it\<close>

lemma pair_ok_reduce:
  assumes "\<forall>j \<in> set cs. pair_ok (get mins j) (get maxs j)"
  shows "pair_ok (minFinite (map (get mins) cs)) (maxFinite (map (get maxs) cs))"
  unfolding pair_ok_def
proof (intro conjI allI impI)
  fix a assume a: "minFinite (map (get mins) cs) = Fin a"
  from minFinite_Fin(2) [OF a] obtain j where j: "j \<in> set cs" "get mins j = Fin a" by auto
  with assms have "get maxs j = PosInf \<or> (\<exists>b. get maxs j = Fin b \<and> a \<le> b)"
    by (auto simp: pair_ok_def)
  moreover have "\<not> js_lt (maxFinite (map (get maxs) cs)) (get maxs j)"
    using j(1) by (intro maxFinite_props(3)) simp
  moreover have "maxFinite (map (get maxs) cs) \<noteq> NaN" by (rule maxFinite_props(1))
  ultimately show "maxFinite (map (get maxs) cs) = PosInf \<or> (\<exists>b. maxFinite (map (get maxs) cs) = Fin b \<and> a \<le> b)"
    by (cases "maxFinite (map (get maxs) cs)") auto
next
  fix b assume b: "maxFinite (map (get maxs) cs) = Fin b"
  from maxFinite_Fin(2) [OF b] obtain j where j: "j \<in> set cs" "get maxs j = Fin b" by auto
  with assms have "get mins j = NegInf \<or> (\<exists>a. get mins j = Fin a \<and> a \<le> b)"
    by (auto simp: pair_ok_def)
  moreover have "\<not> js_lt (get mins j) (minFinite (map (get mins) cs))"
    using j(1) by (intro minFinite_props(3)) simp
  moreover have "minFinite (map (get mins) cs) \<noteq> NaN" by (rule minFinite_props(1))
  ultimately show "minFinite (map (get mins) cs) = NegInf \<or> (\<exists>a. minFinite (map (get mins) cs) = Fin a \<and> a \<le> b)"
    by (cases "minFinite (map (get mins) cs)") auto
qed

lemma cells_ok_reduce:
  assumes "cells_ok c" and f: "float32_level c"
  shows "cells_ok (mipmapReduce c)"
  unfolding cells_ok_def
proof
  fix i
  let ?ow = "(width c + 1) div 2" and ?oh = "(height c + 1) div 2"
  show "pair_ok (get (min_arr (mipmapReduce c)) i) (get (max_arr (mipmapReduce c)) i)"
  proof (cases "i < ?ow * ?oh")
    case False
    then show ?thesis
      by (simp add: get_def mipmapReduce_def reduceWith_length pair_ok_def)
  next
    case True
    then have ow: "0 < ?ow" by (cases "?ow = 0") auto
    have x: "i mod ?ow < ?ow" using ow by simp
    have y: "i div ?ow < ?oh" using True ow by (simp add: less_mult_imp_div_less mult.commute)
    have i: "i = i div ?ow * width (mipmapReduce c) + i mod ?ow"
      using div_mult_mod_eq [of i ?ow] by (simp add: mipmapReduce_def)
    have "pair_ok (minFinite (map (get (min_arr c)) (children_idx (width c) (height c) (i mod ?ow) (i div ?ow))))
                  (maxFinite (map (get (max_arr c)) (children_idx (width c) (height c) (i mod ?ow) (i div ?ow))))"
      using assms(1) by (intro pair_ok_reduce) (simp add: cells_ok_def)
    then show ?thesis
      using mipmapReduce_cell [OF f x y] i by simp
  qed
qed

lemma children_idx_length:
  "length (children_idx w h x y) = (min w (x * 2 + 2) - x * 2) * (min h (y * 2 + 2) - y * 2)"
  by (simp add: children_idx_def length_concat comp_def sum_list_triv mult.commute)

lemma levels_cells_ok:
  assumes "\<forall>v \<in> set raster. float32 v" and "l < length (levels (ContourMipmap raster w h))"
  shows "cells_ok (levels (ContourMipmap raster w h) ! l)"
proof -
  let ?ls = "levels (ContourMipmap raster w h)"
  let ?P = "\<lambda>c. cells_ok c \<and> float32_level c"
  have ne: "?ls \<noteq> []" and mn: "min_arr (last ?ls) = raster" and mx: "max_arr (last ?ls) = raster"
    using finest_level [of raster w h] by simp_all
  have "pair_ok v v" for v :: "rat jsnum"
    by (cases v) (simp_all add: pair_ok_def)
  then have base: "?P (last ?ls)"
    using assms(1) by (simp add: cells_ok_def float32_level_def mn mx)
  have step: "?P (mipmapReduce c)" if "?P c" for c
    using that by (simp add: cells_ok_reduce float32_level_reduce)
  from chain_all [of ?ls ?P, OF levels_chain ne base step assms(2)] show ?thesis
    by simp
qed

text \<open>
  C7. For every cell of every level of a pyramid whose minimum and maximum are finite:
  the minimum is at most the maximum; and when the level is not the finest, the minimum
  is the least of the finite minima, and the maximum the greatest of the finite maxima,
  of the cells directly beneath it in the next level, of which there are one to four.
\<close>

theorem pyramid_cells:
  assumes "\<forall>v \<in> set raster. float32 v"
    and "l < length (levels (ContourMipmap raster w h))"
    and "x < width (levels (ContourMipmap raster w h) ! l)"
    and "y < height (levels (ContourMipmap raster w h) ! l)"
    and "get (min_arr (levels (ContourMipmap raster w h) ! l))
           (width (levels (ContourMipmap raster w h) ! l) * y + x) = Fin a"
    and "get (max_arr (levels (ContourMipmap raster w h) ! l))
           (width (levels (ContourMipmap raster w h) ! l) * y + x) = Fin b"
  shows "a \<le> b
       \<and> (Suc l < length (levels (ContourMipmap raster w h)) \<longrightarrow>
           (let child = levels (ContourMipmap raster w h) ! Suc l;
                cs = children_idx (width child) (height child) x y
            in 1 \<le> length cs \<and> length cs \<le> 4
               \<and> a = Min (set (finites (map (get (min_arr child)) cs)))
               \<and> b = Max (set (finites (map (get (max_arr child)) cs)))))"
proof -
  let ?ls = "levels (ContourMipmap raster w h)"
  let ?i = "width (?ls ! l) * y + x"
  have "pair_ok (get (min_arr (?ls ! l)) ?i) (get (max_arr (?ls ! l)) ?i)"
    using levels_cells_ok [OF assms(1,2)] by (simp add: cells_ok_def)
  then have le: "a \<le> b"
    using assms(5,6) by (simp add: pair_ok_def)
  have "1 \<le> length cs \<and> length cs \<le> 4
        \<and> a = Min (set (finites (map (get (min_arr child)) cs)))
        \<and> b = Max (set (finites (map (get (max_arr child)) cs)))"
    if s: "Suc l < length ?ls" and child: "child = ?ls ! Suc l"
      and cs: "cs = children_idx (width child) (height child) x y" for child cs
  proof -
    have p: "?ls ! l = mipmapReduce child"
      using levels_chain [of raster w h] s unfolding chain_def child by blast
    then have wp: "width (?ls ! l) = (width child + 1) div 2" and hp: "height (?ls ! l) = (height child + 1) div 2"
      by (simp_all add: mipmapReduce_def)
    have x: "x < (width child + 1) div 2" and y: "y < (height child + 1) div 2"
      using assms(3,4) wp hp by simp_all
    have f: "float32_level child"
      unfolding child using levels_float32 [OF assms(1) s] .
    have "minFinite (map (get (min_arr child)) cs) = Fin a"
      using mipmapReduce_cell(1) [OF f x y] assms(5) unfolding p cs by (simp add: mult.commute)
    then have a: "a = Min (set (finites (map (get (min_arr child)) cs)))"
      by (rule minFinite_Fin(1))
    have "maxFinite (map (get (max_arr child)) cs) = Fin b"
      using mipmapReduce_cell(2) [OF f x y] assms(6) unfolding p cs by (simp add: mult.commute)
    then have b: "b = Max (set (finites (map (get (max_arr child)) cs)))"
      by (rule maxFinite_Fin(1))
    have "x * 2 < width child" "y * 2 < height child" using x y by linarith+
    then have "1 \<le> min (width child) (x * 2 + 2) - x * 2" "min (width child) (x * 2 + 2) - x * 2 \<le> 2"
      "1 \<le> min (height child) (y * 2 + 2) - y * 2" "min (height child) (y * 2 + 2) - y * 2 \<le> 2"
      by linarith+
    then have "1 * 1 \<le> length cs" "length cs \<le> 2 * 2"
      unfolding cs children_idx_length by (intro mult_le_mono; simp)+
    with a b show ?thesis by simp
  qed
  with le show ?thesis by (simp add: Let_def)
qed

theorem pyramid_cells_witness:
  "get (min_arr (levels strip ! 0)) 0 = Fin 1 \<and> get (max_arr (levels strip ! 0)) 0 = Fin 9
   \<and> (1 :: rat) \<le> 9
   \<and> 1 = Min (set (finites (map (get (min_arr (levels strip ! 1))) (children_idx 2 1 0 0))))
   \<and> 9 = Max (set (finites (map (get (max_arr (levels strip ! 1))) (children_idx 2 1 0 0))))"
proof -
  have l: "ContourMipmap strip_raster 4 1 = strip"
    by (simp add: strip_def)
  have f: "\<forall>v \<in> set strip_raster. float32 v"
    by (simp add: strip_raster_def float32_def fround_def pow2_def ilog2_def round_even_def Let_def
      bitlen_small floor_rat_numeral)
  have h: "0 < length (levels strip)" "0 < width (levels strip ! 0)" "0 < height (levels strip ! 0)"
    "get (min_arr (levels strip ! 0)) (width (levels strip ! 0) * 0 + 0) = Fin 1"
    "get (max_arr (levels strip ! 0)) (width (levels strip ! 0) * 0 + 0) = Fin 9"
    by (simp_all add: strip_levels get_def)
  have w: "width (levels strip ! Suc 0) = 2" "height (levels strip ! Suc 0) = 1"
    "Suc 0 < length (levels strip)"
    by (simp_all add: strip_levels)
  from pyramid_cells [OF f, of 0 4 1 0 0 1 9, unfolded l, OF h] w h(4,5)
  show ?thesis by (simp add: Let_def)
qed

text \<open>
  The claim as stated fails for a raster that is not of float32 values. The doubles 0.1
  and 0.2: the root holds their float32 roundings, 0.10000000149011612 and
  0.20000000298023224, and its minimum is not the least minimum of the two cells beneath
  it, which is 0.1.
\<close>

lemma tenths_levels:
  "levels tenths =
    [\<lparr>min_arr = [Fin (13421773 / 134217728)], max_arr = [Fin (13421773 / 67108864)],
        width = 1, height = 1, scale = 2\<rparr>,
     \<lparr>min_arr = [Fin (3602879701896397 / 36028797018963968), Fin (3602879701896397 / 18014398509481984)],
        max_arr = [Fin (3602879701896397 / 36028797018963968), Fin (3602879701896397 / 18014398509481984)],
        width = 2, height = 1, scale = 1\<rparr>]"
  by code_simp

theorem rounded_cell_counterexample:
  "get (min_arr (levels tenths ! 0)) 0 = Fin (13421773 / 134217728)
   \<and> get (max_arr (levels tenths ! 0)) 0 = Fin (13421773 / 67108864)
   \<and> children_idx (width (levels tenths ! 1)) (height (levels tenths ! 1)) 0 0 = [0, 1]
   \<and> Min (set (finites (map (get (min_arr (levels tenths ! 1))) [0, 1])))
       = 3602879701896397 / 36028797018963968
   \<and> (13421773 / 134217728 :: rat) \<noteq> 3602879701896397 / 36028797018963968"
proof -
  have c: "children_idx 2 1 0 0 = [0, 1]"
    by (simp add: children_idx_def upt_rec)
  show ?thesis
    unfolding tenths_levels using c by (simp add: get_def finites_def)
qed
section \<open>The depth of the pyramid\<close>

lemma ceillog2_int:
  assumes "1 \<le> n"
  shows "int (ceillog2 n) = \<lceil>log 2 (real n)\<rceil>"
proof -
  have "0 \<le> log 2 (real n)" using assms by simp
  then have "0 \<le> \<lceil>log 2 (real n)\<rceil>" by linarith
  then show ?thesis using assms by (simp add: ceillog2_def)
qed

text \<open>
  C8. For a raster of width and height at least 1 the constructor builds
  \<open>ceil(log2(max(width, height))) + 1\<close> levels, and the first level, the root, is one
  cell wide and one cell high.
\<close>

theorem pyramid_depth:
  assumes "1 \<le> w" and "1 \<le> h"
  shows "int (length (levels (ContourMipmap raster w h))) = \<lceil>log 2 (real (max w h))\<rceil> + 1
       \<and> width (levels (ContourMipmap raster w h) ! 0) = 1
       \<and> height (levels (ContourMipmap raster w h) ! 0) = 1"
proof -
  let ?b = "\<lparr> min_arr = raster, max_arr = raster, width = w, height = h, scale = 1 \<rparr>"
  have "length (build [?b]) = ceillog2 (max w h) + 1 \<and> width (build [?b] ! 0) = 1 \<and> height (build [?b] ! 0) = 1"
    using build_depth [of ?b "[]"] assms by simp
  moreover have "int (ceillog2 (max w h)) = \<lceil>log 2 (real (max w h))\<rceil>"
    using assms by (intro ceillog2_int) simp
  ultimately show ?thesis
    by (simp add: ContourMipmap_def)
qed

theorem pyramid_depth_witness:
  "int (length (levels strip)) = \<lceil>log 2 (real (max 4 1))\<rceil> + 1
       \<and> width (levels strip ! 0) = 1 \<and> height (levels strip ! 0) = 1"
  using pyramid_depth [of 4 1 strip_raster] by (simp add: strip_def)

section \<open>Contour levels of an interval\<close>

lemma bitlen_values:
  "bitlen 1 = 1" "bitlen 2 = 2" "bitlen 3 = 2" "bitlen 28 = 5" "bitlen 29 = 5" "bitlen 100 = 7"
  "bitlen 1152921504606846976 = 61" "bitlen 1152921504606846977 = 61"
  by code_simp+

lemmas double_round_eval = double_round_def pow2_def ilog2_def round_even_def Let_def bitlen_values
  floor_rat_numeral ceiling_rat_numeral

subsection \<open>A threshold below the minimum\<close>

lemma ledge_levels:
  "levels ledge =
    [\<lparr>min_arr = [Fin 29], max_arr = [Fin (117 / 4)], width = 1, height = 1, scale = 2\<rparr>,
     \<lparr>min_arr = [Fin 29, Fin (117 / 4)], max_arr = [Fin 29, Fin (117 / 4)],
        width = 2, height = 1, scale = 1\<rparr>]"
  by code_simp

lemma ledge_min_max: "mmin ledge = Inr (Fin 29)" "mmax ledge = Inr (Fin (117 / 4))"
  by (simp_all add: mmin_def mmax_def ledge_levels get_def)

lemma step_029: "double_round (29 / 100) = Fin (5224175567749775 / 18014398509481984)"
  by (simp add: double_round_eval)

lemma ledge_quotient:
  "js_div double_round (Fin 29) (Fin (5224175567749775 / 18014398509481984)) = Fin 100"
  by (simp add: double_round_eval)

lemma ledge_first:
  "js_mul double_round (js_ceil (Fin 100)) (Fin (5224175567749775 / 18014398509481984))
    = Fin (8162774324609023 / 281474976710656)"
  by (simp add: double_round_eval)

lemma ledge_second:
  "js_add double_round (Fin (8162774324609023 / 281474976710656))
      (Fin (5224175567749775 / 18014398509481984))
    = Fin (8244402067855113 / 281474976710656)"
  by (simp add: double_round_eval)

lemma ledge_loop:
  "intervals_loop double_round (Fin (117 / 4)) (Fin (5224175567749775 / 18014398509481984))
      (Fin (8162774324609023 / 281474976710656)) []
    = Inr [Fin (8162774324609023 / 281474976710656)]"
  apply (subst intervals_loop.simps)
  apply (simp only: ledge_second)
  apply (subst intervals_loop.simps)
  apply simp
  done

text \<open>
  C9, counterexample. The two samples 29 and 29.25 and the step 0.29 (the double nearest
  to it): the quotient \<open>29 / 0.29\<close>, a little above 100, rounds to 100, and 100 steps
  round to 28.999999999999996. \<open>intervals\<close> returns this one value, below \<open>min()\<close>.
\<close>

theorem intervals_below_min_counterexample:
  "mmin ledge = Inr (Fin 29)
   \<and> double_round (29 / 100) = Fin (5224175567749775 / 18014398509481984)
   \<and> intervals double_round ledge (Fin (5224175567749775 / 18014398509481984))
       = Inr [Fin (8162774324609023 / 281474976710656)]
   \<and> js_lt (Fin (8162774324609023 / 281474976710656)) (Fin (29 :: rat))"
proof -
  have "intervals double_round ledge (Fin (5224175567749775 / 18014398509481984))
       = Inr [Fin (8162774324609023 / 281474976710656)]"
    unfolding intervals_def ledge_min_max sum.case ledge_quotient ledge_first ledge_loop
    by (simp add: js_le_def)
  with ledge_min_max(1) step_029 show ?thesis by simp
qed

subsection \<open>A loop that does not advance\<close>

lemma huge_levels:
  "levels huge =
    [\<lparr>min_arr = [Fin (2 ^ 60)], max_arr = [Fin (2 ^ 61)], width = 1, height = 1, scale = 2\<rparr>,
     \<lparr>min_arr = [Fin (2 ^ 60), Fin (2 ^ 61)], max_arr = [Fin (2 ^ 60), Fin (2 ^ 61)],
        width = 2, height = 1, scale = 1\<rparr>]"
  by code_simp

lemma huge_min_max: "mmin huge = Inr (Fin (2 ^ 60))" "mmax huge = Inr (Fin (2 ^ 61))"
  by (simp_all add: mmin_def mmax_def huge_levels get_def)

lemma huge_first:
  "js_mul double_round (js_ceil (js_div double_round (Fin (2 ^ 60)) (Fin 1))) (Fin 1) = Fin (2 ^ 60)"
  by (simp add: double_round_eval)

lemma huge_next: "js_add double_round (Fin (2 ^ 60)) (Fin 1) = Fin (2 ^ 60)"
  by (simp add: double_round_eval)

lemma loop_stuck:
  assumes "js_lt level mx" and "js_add rnd level interval = level"
  shows "intervals_loop rnd mx interval level lvls = Inl RangeError"
proof (induction "4294967295 - length lvls" arbitrary: lvls)
  case 0
  then show ?case using assms(1) by (subst intervals_loop.simps) simp
next
  case (Suc d)
  then have "d = 4294967295 - length (lvls @ [level])" and "length lvls < 4294967295" by simp_all
  with Suc.hyps(1) assms show ?case by (subst intervals_loop.simps) simp
qed

text \<open>
  With the samples \<open>2^60\<close> and \<open>2^61\<close> and the step 1 the sum \<open>2^60 + 1\<close> rounds to
  \<open>2^60\<close>: the level never reaches the maximum, and the call ends when the array is full.
\<close>

lemma intervals_gives_up: "intervals double_round huge (Fin 1) = Inl RangeError"
proof -
  have "intervals_loop double_round (Fin (2 ^ 61)) (Fin 1) (Fin (2 ^ 60)) [] = Inl RangeError"
    using huge_next by (intro loop_stuck) simp_all
  then show ?thesis
    unfolding intervals_def huge_min_max sum.case huge_first by (simp add: js_le_def)
qed

subsection \<open>What the loop returns, whatever the rounding\<close>

lemma level_at_Suc: "level_at rnd i (js_add rnd v i) k = level_at rnd i v (Suc k)"
  using funpow_swap1 [of "\<lambda>v. js_add rnd v i" k v] by (simp add: level_at_def)

lemma level_at_0 [simp]: "level_at rnd i v 0 = v"
  by (simp add: level_at_def)

lemma loop_error: "intervals_loop rnd mx i level acc = Inl e \<Longrightarrow> e = RangeError"
proof (induction rnd mx i level acc rule: intervals_loop.induct)
  case (1 rnd mx i level acc)
  from "1.prems" show ?case
    by (subst (asm) intervals_loop.simps) (auto split: if_splits intro: "1.IH")
qed

lemma loop_run:
  "intervals_loop rnd mx i level acc = Inr ts \<Longrightarrow>
   \<exists>n. ts = acc @ map (level_at rnd i level) [0..<n]
      \<and> (\<forall>k<n. js_lt (level_at rnd i level k) mx) \<and> \<not> js_lt (level_at rnd i level n) mx"
proof (induction rnd mx i level acc arbitrary: ts rule: intervals_loop.induct)
  case (1 rnd mx i level acc)
  show ?case
  proof (cases "js_lt level mx")
    case False
    with "1.prems" have "ts = acc" by (subst (asm) intervals_loop.simps) simp
    with False show ?thesis by (intro exI [of _ 0]) simp
  next
    case True
    with "1.prems" have l: "length acc < 4294967295"
      and r: "intervals_loop rnd mx i (js_add rnd level i) (acc @ [level]) = Inr ts"
      by (subst (asm) intervals_loop.simps, simp split: if_splits)+
    from "1.IH" [OF True l r] obtain n where n: "ts = (acc @ [level]) @ map (level_at rnd i (js_add rnd level i)) [0..<n]"
      "\<forall>k<n. js_lt (level_at rnd i (js_add rnd level i) k) mx"
      "\<not> js_lt (level_at rnd i (js_add rnd level i) n) mx"
      by blast
    have m: "map (level_at rnd i level) [0..<Suc n] = level # map (level_at rnd i (js_add rnd level i)) [0..<n]"
      by (simp add: upt_rec [of 0] map_Suc_upt [symmetric] level_at_Suc del: upt_Suc)
    have "\<forall>k<Suc n. js_lt (level_at rnd i level k) mx"
    proof (intro allI impI)
      fix k assume "k < Suc n"
      then show "js_lt (level_at rnd i level k) mx"
        using True n(2) by (cases k) (simp_all add: level_at_Suc)
    qed
    moreover have "\<not> js_lt (level_at rnd i level (Suc n)) mx"
      using n(3) by (simp add: level_at_Suc)
    moreover have "ts = acc @ map (level_at rnd i level) [0..<Suc n]"
      unfolding m n(1) by simp
    ultimately show ?thesis by blast
  qed
qed

text \<open>
  A level that comes back makes the loop go round for ever: the levels of a call that
  returns are distinct.
\<close>

lemma level_at_add: "level_at rnd i v (a + b) = level_at rnd i (level_at rnd i v a) b"
  unfolding level_at_def by (subst add.commute) (simp add: funpow_add)

lemma run_distinct:
  assumes lt: "\<forall>k<n. js_lt (level_at rnd i v k) mx" and stop: "\<not> js_lt (level_at rnd i v n) mx"
  shows "distinct (map (level_at rnd i v) [0..<n])"
proof -
  have False if ab: "a < b" "b < n" and eq: "level_at rnd i v a = level_at rnd i v b" for a b
  proof -
    define p where "p = b - a"
    have p: "0 < p" "b = a + p" using ab by (simp_all add: p_def)
    have per: "level_at rnd i v (a + p + c) = level_at rnd i v (a + c)" for c
    proof -
      have "level_at rnd i v (a + p + c) = level_at rnd i (level_at rnd i v (a + p)) c"
        by (rule level_at_add)
      also have "\<dots> = level_at rnd i (level_at rnd i v a) c" using eq p(2) by simp
      also have "\<dots> = level_at rnd i v (a + c)" by (rule level_at_add [symmetric])
      finally show ?thesis .
    qed
    have down: "a \<le> m \<Longrightarrow> \<exists>m'. m' < b \<and> level_at rnd i v m = level_at rnd i v m'" for m
    proof (induction m rule: less_induct)
      case (less m)
      show ?case
      proof (cases "m < b")
        case True
        then show ?thesis by blast
      next
        case False
        then have m: "m = a + p + (m - b)" using p(2) by simp
        have "level_at rnd i v m = level_at rnd i v (a + (m - b))"
          by (subst m) (rule per)
        moreover have "a + (m - b) < m" "a \<le> a + (m - b)" using False p by simp_all
        ultimately show ?thesis using less.IH [of "a + (m - b)"] by auto
      qed
    qed
    from down [of n] ab obtain m' where "m' < b" "level_at rnd i v n = level_at rnd i v m'"
      by auto
    with lt stop ab(2) show False by auto
  qed
  then have "inj_on (level_at rnd i v) {0..<n}"
    by (intro linorder_inj_onI) auto
  then show ?thesis by (simp add: distinct_map)
qed

text \<open>Where a sum with the step is never below its level, the levels ascend.\<close>

lemma run_ascending:
  assumes lt: "\<forall>k<n. js_lt (level_at rnd (Fin s) v k) mx" and stop: "\<not> js_lt (level_at rnd (Fin s) v n) mx"
    and nb: "never_below rnd s" and v: "\<And>x. v = Fin x \<Longrightarrow> \<exists>z. rnd z = Fin x"
  shows "sorted_wrt js_lt (map (level_at rnd (Fin s) v) [0..<n])"
proof -
  let ?f = "level_at rnd (Fin s) v"
  have rng: "\<exists>z. rnd z = Fin x" if "?f k = Fin x" for k x
    using that
  proof (induction k arbitrary: x)
    case 0
    then show ?case using v by simp
  next
    case (Suc k)
    have "?f (Suc k) = js_add rnd (?f k) (Fin s)" by (simp add: level_at_def)
    with Suc.prems show ?case by (cases "?f k") auto
  qed
  have step: "js_lt (?f k) (?f (Suc k))" if "Suc k < n" for k
  proof -
    from that have a: "js_lt (?f k) mx" and b: "js_lt (?f (Suc k)) mx" using lt by simp_all
    have ne: "?f k \<noteq> ?f (Suc k)"
      using run_distinct [OF lt stop] that by (simp add: distinct_conv_nth)
    have s: "?f (Suc k) = js_add rnd (?f k) (Fin s)" by (simp add: level_at_def)
    show ?thesis
    proof (cases "?f k")
      case (Fin x)
      from rng [OF Fin] obtain z where "rnd z = Fin x" by auto
      with nb have "\<not> js_lt (rnd (x + s)) (Fin x)" unfolding never_below_def by blast
      then have "\<not> js_lt (?f (Suc k)) (Fin x)" using s Fin by simp
      with ne b Fin show ?thesis by (cases "?f (Suc k)") auto
    next
      case NegInf
      with s have "?f (Suc k) = NegInf" by simp
      with ne NegInf show ?thesis by simp
    next
      case PosInf
      with a show ?thesis by (cases mx) simp_all
    next
      case NaN
      with a show ?thesis by simp
    qed
  qed
  show ?thesis
  proof (subst sorted_wrt_iff_nth_less, intro allI impI)
    fix a b
    assume ab: "a < b" "b < length (map ?f [0..<n])"
    then have bn: "b < n" by simp
    from ab(1) bn have "js_lt (?f a) (?f b)"
    proof (induction b)
      case 0
      then show ?case by simp
    next
      case (Suc b)
      show ?case
      proof (cases "a = b")
        case True
        then show ?thesis using step [of b] Suc.prems by simp
      next
        case False
        then have "js_lt (?f a) (?f b)" using Suc by simp
        moreover have "js_lt (?f b) (?f (Suc b))" using step [of b] Suc.prems by simp
        ultimately show ?thesis by (rule js_lt_trans)
      qed
    qed
    then show "js_lt (map ?f [0..<n] ! a) (map ?f [0..<n] ! b)"
      using ab(1) bn by simp
  qed
qed

lemma first_level_range: "js_mul rnd a (Fin s) = Fin x \<Longrightarrow> \<exists>z. rnd z = Fin x"
  by (cases a) (auto split: if_splits)

subsection \<open>Exact arithmetic\<close>

lemma below_max_iff:
  fixes s mx x0 :: rat
  assumes s: "0 < s"
  shows "x0 + of_nat k * s < mx \<longleftrightarrow> k < nat \<lceil>(mx - x0) / s\<rceil>"
proof -
  have "x0 + of_nat k * s < mx \<longleftrightarrow> of_nat k < (mx - x0) / s"
    using s by (simp add: pos_less_divide_eq algebra_simps)
  also have "\<dots> \<longleftrightarrow> of_int (int k) < (mx - x0) / s" by simp
  also have "\<dots> \<longleftrightarrow> int k < \<lceil>(mx - x0) / s\<rceil>" by (rule less_ceiling_iff [symmetric])
  also have "\<dots> \<longleftrightarrow> k < nat \<lceil>(mx - x0) / s\<rceil>" by linarith
  finally show ?thesis .
qed

lemma loop_exact:
  fixes s mx x0 :: rat
  assumes s: "0 < s" and n: "n = nat \<lceil>(mx - x0) / s\<rceil>" and cap: "n \<le> 4294967295"
    and a: "\<forall>k<n. rnd (x0 + of_nat k * s + s) = Fin (x0 + of_nat (Suc k) * s)"
  shows "k \<le> n \<Longrightarrow> length acc = k \<Longrightarrow>
     intervals_loop rnd (Fin mx) (Fin s) (Fin (x0 + of_nat k * s)) acc
     = Inr (acc @ map (\<lambda>j. Fin (x0 + of_nat j * s)) [k..<n])"
proof (induction "n - k" arbitrary: k acc)
  case 0
  then have k: "k = n" by simp
  have "\<not> x0 + of_nat k * s < mx" using below_max_iff [OF s, of x0 k mx] k n by simp
  then show ?case
    by (subst intervals_loop.simps) (simp add: k)
next
  case (Suc d)
  then have k: "k < n" by simp
  have lt: "x0 + of_nat k * s < mx" using below_max_iff [OF s, of x0 k mx] k n by simp
  have nx: "js_add rnd (Fin (x0 + of_nat k * s)) (Fin s) = Fin (x0 + of_nat (Suc k) * s)"
    using a k by simp
  have len: "length acc < 4294967295" using Suc.prems(2) k cap by simp
  have ih: "intervals_loop rnd (Fin mx) (Fin s) (Fin (x0 + of_nat (Suc k) * s))
        (acc @ [Fin (x0 + of_nat k * s)])
      = Inr ((acc @ [Fin (x0 + of_nat k * s)]) @ map (\<lambda>j. Fin (x0 + of_nat j * s)) [Suc k..<n])"
    using Suc.hyps(2) Suc.prems(2) k by (intro Suc.hyps(1)) simp_all
  have "intervals_loop rnd (Fin mx) (Fin s) (Fin (x0 + of_nat k * s)) acc
      = intervals_loop rnd (Fin mx) (Fin s) (Fin (x0 + of_nat (Suc k) * s))
          (acc @ [Fin (x0 + of_nat k * s)])"
    by (subst intervals_loop.simps) (simp only: nx js_lt.simps lt len if_True)
  also note ih
  finally show ?case using k by (simp add: upt_conv_Cons)
qed

lemma first_above_min:
  fixes s mn :: rat
  assumes "0 < s"
  shows "mn \<le> of_int \<lceil>mn / s\<rceil> * s"
proof -
  have "mn / s \<le> of_int \<lceil>mn / s\<rceil>" by (rule le_of_int_ceiling)
  with pos_divide_le_eq [OF assms, of mn "of_int \<lceil>mn / s\<rceil>"] show ?thesis by blast
qed

lemma ascending:
  fixes s x0 :: rat
  assumes "0 < s"
  shows "sorted_wrt js_lt (map (\<lambda>k. Fin (x0 + of_nat k * s)) [0..<n])"
proof -
  have "sorted_wrt (\<lambda>i j. js_lt (Fin (x0 + of_nat i * s)) (Fin (x0 + of_nat j * s))) [0..<n]"
    using sorted_wrt_upt [of 0 n]
    by (rule sorted_wrt_mono_rel [rotated]) (use assms in simp)
  then show ?thesis by (simp add: sorted_wrt_map)
qed

lemma intervals_exact:
  fixes rnd :: "rat \<Rightarrow> rat jsnum" and mn mx s :: rat
  assumes "mmin this = Inr (Fin mn)" and "mmax this = Inr (Fin mx)" and "0 < s"
    and "exact_run rnd mn mx s" and "nat \<lceil>(mx - of_int \<lceil>mn / s\<rceil> * s) / s\<rceil> \<le> 4294967295"
  shows "intervals rnd this (Fin s)
      = Inr (map (\<lambda>k. Fin (of_int \<lceil>mn / s\<rceil> * s + of_nat k * s))
               [0..<nat \<lceil>(mx - of_int \<lceil>mn / s\<rceil> * s) / s\<rceil>])"
proof -
  define e where "e = of_int \<lceil>mn / s\<rceil> * s"
  define n where "n = nat \<lceil>(mx - e) / s\<rceil>"
  from assms(4) obtain q where q: "rnd (mn / s) = Fin q" "\<lceil>q\<rceil> = \<lceil>mn / s\<rceil>"
    and p: "rnd (of_int \<lceil>mn / s\<rceil> * s) = Fin e"
    and a: "\<forall>k<n. rnd (e + of_nat k * s + s) = Fin (e + of_nat (Suc k) * s)"
    unfolding exact_run_def Let_def e_def n_def by blast
  have first: "js_mul rnd (js_ceil (js_div rnd (Fin mn) (Fin s))) (Fin s) = Fin (e + of_nat 0 * s)"
    using assms(3) q p by simp
  have cap: "n \<le> 4294967295" using assms(5) by (simp add: n_def e_def)
  have "intervals_loop rnd (Fin mx) (Fin s) (Fin (e + of_nat 0 * s)) []
      = Inr ([] @ map (\<lambda>j. Fin (e + of_nat j * s)) [0..<n])"
    using assms(3) n_def cap a by (intro loop_exact) simp_all
  then have "intervals rnd this (Fin s) = Inr (map (\<lambda>k. Fin (e + of_nat k * s)) [0..<n])"
    unfolding intervals_def assms(1,2) sum.case first using assms(3) by (simp add: js_le_def)
  then show ?thesis by (simp add: e_def n_def)
qed

text \<open>
  C9, as the code has it. For finite \<open>min()\<close> and \<open>max()\<close> and a step above 0, and for
  every rounding: \<open>intervals(step)\<close> throws a \<open>RangeError\<close> (the array is full), or it
  returns the levels of the loop, \<open>x0\<close>, \<open>x0 + step\<close> rounded, and so on, where \<open>x0\<close> is
  \<open>ceil(min / step) * step\<close> as the doubles compute it; these are distinct, every one
  is below \<open>max()\<close>, and the next one is not. They ascend strictly in the arithmetic
  of doubles, and with every rounding where a sum with the step is never below its level.
  Where moreover no operation of the call rounds and
  there are fewer than \<open>2^32\<close> levels, the call returns, its levels are exactly \<open>step\<close> apart,
  start at the exact \<open>ceil(min / step) * step\<close>, ascend strictly, and every one is at
  least \<open>min()\<close> and below \<open>max()\<close>.
\<close>

theorem intervals_thresholds:
  fixes rnd :: "rat \<Rightarrow> rat jsnum" and mn mx s :: rat
  assumes "mmin this = Inr (Fin mn)" and "mmax this = Inr (Fin mx)" and "0 < s"
    and "x0 = js_mul rnd (js_ceil (js_div rnd (Fin mn) (Fin s))) (Fin s)"
    and "e = of_int \<lceil>mn / s\<rceil> * s" and "m = nat \<lceil>(mx - e) / s\<rceil>"
  shows "(intervals rnd this (Fin s) = Inl RangeError
          \<or> (\<exists>n. intervals rnd this (Fin s) = Inr (map (level_at rnd (Fin s) x0) [0..<n])
                \<and> (\<forall>k<n. js_lt (level_at rnd (Fin s) x0 k) (Fin mx))
                \<and> \<not> js_lt (level_at rnd (Fin s) x0 n) (Fin mx)
                \<and> distinct (map (level_at rnd (Fin s) x0) [0..<n])
                \<and> (rnd = double_round \<or> never_below rnd s \<longrightarrow>
                     sorted_wrt js_lt (map (level_at rnd (Fin s) x0) [0..<n]))))
       \<and> (exact_run rnd mn mx s \<and> m \<le> 4294967295 \<longrightarrow>
            intervals rnd this (Fin s) = Inr (map (\<lambda>k. Fin (e + of_nat k * s)) [0..<m])
            \<and> sorted_wrt js_lt (map (\<lambda>k. Fin (e + of_nat k * s)) [0..<m])
            \<and> (\<forall>k<m. mn \<le> e + of_nat k * s \<and> e + of_nat k * s < mx))"
proof -
  have i: "intervals rnd this (Fin s) = intervals_loop rnd (Fin mx) (Fin s) x0 []"
    unfolding intervals_def assms(1,2,4) using assms(3) by (simp add: js_le_def)
  have A: "intervals rnd this (Fin s) = Inl RangeError
          \<or> (\<exists>n. intervals rnd this (Fin s) = Inr (map (level_at rnd (Fin s) x0) [0..<n])
                \<and> (\<forall>k<n. js_lt (level_at rnd (Fin s) x0 k) (Fin mx))
                \<and> \<not> js_lt (level_at rnd (Fin s) x0 n) (Fin mx)
                \<and> distinct (map (level_at rnd (Fin s) x0) [0..<n])
                \<and> (rnd = double_round \<or> never_below rnd s \<longrightarrow>
                     sorted_wrt js_lt (map (level_at rnd (Fin s) x0) [0..<n])))"
  proof (cases "intervals_loop rnd (Fin mx) (Fin s) x0 []")
    case (Inl err)
    then show ?thesis using loop_error [OF Inl] i by simp
  next
    case (Inr ts)
    from loop_run [OF Inr] obtain n where n: "ts = map (level_at rnd (Fin s) x0) [0..<n]"
      "\<forall>k<n. js_lt (level_at rnd (Fin s) x0 k) (Fin mx)"
      "\<not> js_lt (level_at rnd (Fin s) x0 n) (Fin mx)"
      by auto
    have d: "distinct (map (level_at rnd (Fin s) x0) [0..<n])"
      using n(2,3) by (rule run_distinct)
    have r: "\<exists>z. rnd z = Fin x" if "x0 = Fin x" for x
      using that first_level_range [of rnd _ s x] unfolding assms(4) by blast
    have "sorted_wrt js_lt (map (level_at rnd (Fin s) x0) [0..<n])"
      if "rnd = double_round \<or> never_below rnd s"
    proof -
      have "never_below rnd s"
        using that double_round_never_below [OF assms(3)] by auto
      with n(2,3) show ?thesis using r by (rule run_ascending)
    qed
    with n d i Inr show ?thesis by auto
  qed
  have B: "intervals rnd this (Fin s) = Inr (map (\<lambda>k. Fin (e + of_nat k * s)) [0..<m])
            \<and> sorted_wrt js_lt (map (\<lambda>k. Fin (e + of_nat k * s)) [0..<m])
            \<and> (\<forall>k<m. mn \<le> e + of_nat k * s \<and> e + of_nat k * s < mx)"
    if x: "exact_run rnd mn mx s" and cap: "m \<le> 4294967295"
  proof -
    have 1: "intervals rnd this (Fin s) = Inr (map (\<lambda>k. Fin (e + of_nat k * s)) [0..<m])"
      using intervals_exact [OF assms(1-3) x] cap unfolding assms(5,6) by simp
    have 2: "sorted_wrt js_lt (map (\<lambda>k. Fin (e + of_nat k * s)) [0..<m])"
      using assms(3) by (rule ascending)
    have 3: "mn \<le> e + of_nat k * s \<and> e + of_nat k * s < mx" if "k < m" for k
    proof
      have "mn \<le> e" unfolding assms(5) using assms(3) by (rule first_above_min)
      moreover have "0 \<le> of_nat k * s" using assms(3) by simp
      ultimately show "mn \<le> e + of_nat k * s" by linarith
      show "e + of_nat k * s < mx" using below_max_iff [OF assms(3), of e k mx] that assms(6) by simp
    qed
    from 1 2 3 show ?thesis by blast
  qed
  from A B show ?thesis by blast
qed

lemma low_levels:
  "levels low =
    [\<lparr>min_arr = [Fin 0], max_arr = [Fin 3], width = 1, height = 1, scale = 2\<rparr>,
     \<lparr>min_arr = [Fin 0, Fin 3], max_arr = [Fin 0, Fin 3], width = 2, height = 1, scale = 1\<rparr>]"
  by code_simp

lemma low_min_max: "mmin low = Inr (Fin 0)" "mmax low = Inr (Fin 3)"
  by (simp_all add: mmin_def mmax_def low_levels get_def)

lemma low_exact: "exact_run double_round 0 3 1"
proof -
  have "double_round (0 + of_nat k * 1 + 1) = Fin (0 + of_nat (Suc k) * 1)" if "k < 3" for k :: nat
  proof -
    from that consider "k = 0" | "k = 1" | "k = 2" by linarith
    then show ?thesis by cases (simp_all add: double_round_eval)
  qed
  then show ?thesis
    by (simp add: exact_run_def double_round_def)
qed

theorem intervals_thresholds_witness:
  "intervals double_round low (Fin 1) = Inr [Fin 0, Fin 1, Fin 2]
   \<and> sorted_wrt js_lt [Fin 0, Fin 1, Fin (2 :: rat)]
   \<and> js_lt (Fin (2 :: rat)) (Fin 3)"
proof -
  have e: "(0 :: rat) = of_int \<lceil>0 / 1 :: rat\<rceil> * 1" by simp
  have m: "(3 :: nat) = nat \<lceil>((3 :: rat) - 0) / 1\<rceil>" by simp
  have u: "[0..<3] = [0, 1, 2]" by (simp add: upt_rec)
  from intervals_thresholds [OF low_min_max zero_less_one refl e m] low_exact
  show ?thesis unfolding u by simp
qed
section \<open>A call leaves the pyramid as it was\<close>

lemma map_get_shift: "map_get (shift n m) k = map_option (\<lambda>a. a + n) (map_get m k)"
  by (induction m) (auto simp: shift_def map_get_def)

lemma map_delete_shift: "map_delete (shift n m) k = shift n (map_delete m k)"
  by (induction m) (auto simp: shift_def map_delete_def)

lemma map_set_shift: "map_set (shift n m) k (a + n) = shift n (map_set m k a)"
  by (induction m) (auto simp: shift_def)

lemma length_shift: "length (shift n m) = length m"
  by (simp add: shift_def)

lemma snd_shift: "map snd (shift n m) = map (\<lambda>a. a + n) (map snd m)"
  by (induction m) (auto simp: shift_def)

lemma frag_lift: "a < length h \<Longrightarrow> frag (\<sigma> @ map Fragment h) (a + length \<sigma>) = h ! a"
  by (simp add: frag_def nth_append)

lemma update_lift:
  "(\<sigma> @ map Fragment h)[a + length \<sigma> := Fragment x] = \<sigma> @ map Fragment (h[a := x])"
  by (simp add: list_update_append map_update)

lemma map_get_addr: "map_get m k = Some a \<Longrightarrow> a \<in> snd ` set m"
  unfolding map_get_def by (drule map_of_SomeD) force

lemma map_set_addrs: "snd ` set (map_set m k v) \<subseteq> insert v (snd ` set m)"
proof (induction m)
  case (Cons kv m)
  obtain k' v' where kv: "kv = (k', v')" by (cases kv)
  from Cons show ?case unfolding kv by (cases "k' = k") auto
qed simp

lemma map_delete_addrs: "snd ` set (map_delete m k) \<subseteq> snd ` set m"
  by (auto simp: map_delete_def)


lemma addrs_okI:
  assumes "\<And>a. a \<in> snd ` set (fragmentStart st) \<Longrightarrow> a < length (heap st)"
    and "\<And>a. a \<in> snd ` set (fragmentEnd st) \<Longrightarrow> a < length (heap st)"
    and "\<And>a. a \<in> set (rings st) \<Longrightarrow> a < length (heap st)"
  shows "addrs_ok st"
  using assms unfolding addrs_ok_def by blast

lemma addrs_okD:
  assumes "addrs_ok st"
  shows "a \<in> snd ` set (fragmentStart st) \<Longrightarrow> a < length (heap st)"
    and "a \<in> snd ` set (fragmentEnd st) \<Longrightarrow> a < length (heap st)"
    and "a \<in> set (rings st) \<Longrightarrow> a < length (heap st)"
  using assms unfolding addrs_ok_def by blast+

lemma in_map_set: "(k', a) \<in> set (map_set m k v) \<Longrightarrow> a = v \<or> (k', a) \<in> set m"
proof (induction m)
  case (Cons kv m)
  obtain k0 v0 where kv: "kv = (k0, v0)" by (cases kv)
  from Cons show ?case unfolding kv by (cases "k0 = k") auto
qed simp

lemma in_map_delete: "(k', a) \<in> set (map_delete m k) \<Longrightarrow> (k', a) \<in> set m"
  by (simp add: map_delete_def)

lemma addrs_ok_join:
  assumes ok: "addrs_ok st"
  shows "addrs_ok (join_step st sg)"
proof -
  have d: "(k, a) \<in> set (fragmentStart st) \<Longrightarrow> a < length (heap st)"
    "(k, a) \<in> set (fragmentEnd st) \<Longrightarrow> a < length (heap st)"
    "a \<in> set (rings st) \<Longrightarrow> a < length (heap st)" for k a
    using addrs_okD [OF ok] by force+
  show ?thesis
  proof (cases "map_get (fragmentEnd st) (key (start sg))")
    case None
    note e = None
    show ?thesis
    proof (cases "map_get (fragmentStart st) (key (endp sg))")
      case None
      show ?thesis
        unfolding join_step_def e None using d
        by (intro addrs_okI) (auto simp: Let_def less_Suc_eq dest!: in_map_set in_map_delete)
    next
      case (Some b)
      have "b < length (heap st)" using map_get_addr [OF Some] addrs_okD(1) [OF ok] by blast
      then show ?thesis
        unfolding join_step_def e Some using d
        by (intro addrs_okI) (auto simp: Let_def dest!: in_map_set in_map_delete)
    qed
  next
    case (Some a)
    note e = Some
    have a: "a < length (heap st)" using map_get_addr [OF Some] addrs_okD(2) [OF ok] by blast
    show ?thesis
    proof (cases "map_get (fragmentStart st) (key (endp sg))")
      case None
      show ?thesis
        unfolding join_step_def e None using d a
        by (intro addrs_okI) (auto simp: Let_def dest!: in_map_set in_map_delete)
    next
      case (Some b)
      show ?thesis
        unfolding join_step_def e Some using d a
        by (intro addrs_okI) (auto simp: Let_def less_Suc_eq dest!: in_map_set in_map_delete)
    qed
  qed
qed

lemma addrs_ok_step: "addrs_ok st \<Longrightarrow> addrs_ok (stitch_step st sg)"
  using addrs_ok_join [of st sg] by (simp add: stitch_step_def Let_def addrs_ok_def)

lemma addrs_ok_foldl: "addrs_ok st \<Longrightarrow> addrs_ok (foldl stitch_step st segs)"
  by (induction segs arbitrary: st) (simp_all add: addrs_ok_step)

lemma addrs_ok_stitchAll: "addrs_ok (stitchAll segs)"
  unfolding stitchAll_def by (rule addrs_ok_foldl) (simp add: addrs_ok_def stitch_init_def)


text \<open>
  The loop on the store does what the loop on its own fragments does, at the addresses
  after the objects that were there.
\<close>

lemma join_step_lift:
  assumes ok: "addrs_ok st"
  shows "join_step_st (lift \<sigma> st) sg = lift \<sigma> (join_step st sg)"
proof -
  let ?n = "length \<sigma>"
  have c: "frag (\<sigma> @ map Fragment (heap st) @ [Fragment x]) (length (heap st) + ?n) = x" for x
    by (simp add: frag_def nth_append)
  have s: "map_set (shift ?n m) k (length (heap st) + ?n) = shift ?n (map_set m k (length (heap st)))" for m k
    by (rule map_set_shift)
  show ?thesis
  proof (cases "map_get (fragmentEnd st) (key (start sg))")
    case None
    note e = None
    show ?thesis
    proof (cases "map_get (fragmentStart st) (key (endp sg))")
      case None
      show ?thesis
        unfolding join_step_def join_step_st_def lift_def
        by (simp add: e None map_get_shift Let_def map_set_shift s add.commute [of ?n])
    next
      case (Some b)
      have b: "b < length (heap st)" using map_get_addr [OF Some] addrs_okD(1) [OF ok] by blast
      show ?thesis
        unfolding join_step_def join_step_st_def lift_def
        by (simp add: e Some map_get_shift Let_def map_set_shift map_delete_shift
            frag_lift [OF b] update_lift)
    qed
  next
    case (Some a)
    note e = Some
    have a: "a < length (heap st)" using map_get_addr [OF Some] addrs_okD(2) [OF ok] by blast
    show ?thesis
    proof (cases "map_get (fragmentStart st) (key (endp sg))")
      case None
      show ?thesis
        unfolding join_step_def join_step_st_def lift_def
        by (simp add: e None map_get_shift Let_def map_set_shift map_delete_shift
            frag_lift [OF a] update_lift)
    next
      case (Some b)
      have b: "b < length (heap st)" using map_get_addr [OF Some] addrs_okD(1) [OF ok] by blast
      show ?thesis
        unfolding join_step_def join_step_st_def lift_def
        by (simp add: e Some map_get_shift Let_def map_set_shift map_delete_shift
            frag_lift [OF a] frag_lift [OF b] update_lift c s add.commute [of ?n])
    qed
  qed
qed

lemma stitch_step_lift:
  assumes "addrs_ok st"
  shows "stitch_step_st (lift \<sigma> st) sg = lift \<sigma> (stitch_step st sg)"
  unfolding stitch_step_st_def stitch_step_def join_step_lift [OF assms]
  by (simp add: lift_def Let_def length_shift)

lemma foldl_lift:
  "addrs_ok st \<Longrightarrow> foldl stitch_step_st (lift \<sigma> st) segs = lift \<sigma> (foldl stitch_step st segs)"
  by (induction segs arbitrary: st) (simp_all add: stitch_step_lift addrs_ok_step)

lemma stitchAll_lift: "stitchAll_st \<sigma> segs = lift \<sigma> (stitchAll segs)"
proof -
  have "\<lparr> objects = \<sigma>, frag_start = [], frag_end = [], ring_addrs = [], messages = [] \<rparr>
      = lift \<sigma> stitch_init"
    by (simp add: lift_def stitch_init_def shift_def)
  moreover have "addrs_ok stitch_init"
    by (simp add: addrs_ok_def stitch_init_def)
  ultimately show ?thesis
    unfolding stitchAll_st_def stitchAll_def by (simp add: foldl_lift)
qed


text \<open>
  What \<open>load\<close> reads is what the walker reads: \<open>this.levels[l]\<close> is the level object at
  the \<open>l\<close>-th address of the \<open>levels\<close> array, and its \<open>min\<close> and \<open>max\<close> are the arrays at
  the two addresses it holds.
\<close>

lemma load_levels_nth:
  "load_levels \<sigma> as = Some ls \<Longrightarrow>
     length ls = length as \<and> (\<forall>l < length as. load_level \<sigma> (as ! l) = Some (ls ! l))"
proof (induction as arbitrary: ls)
  case Nil
  then show ?case by simp
next
  case (Cons a as)
  from Cons.prems obtain l0 ls0 where a: "load_level \<sigma> a = Some l0"
    and r: "load_levels \<sigma> as = Some ls0" and ls: "ls = l0 # ls0"
    by (auto split: option.splits)
  from Cons.IH [OF r] a show ?case
    unfolding ls by (auto simp: nth_Cons split: nat.splits)
qed

lemma load_reads:
  assumes "load \<sigma> this = Some m" and "l < length (levels m)"
  shows "\<exists>as mn mx. \<sigma> ! this = LevelList as \<and> l < length as
      \<and> \<sigma> ! (as ! l) = LevelObj mn mx (width (levels m ! l)) (height (levels m ! l)) (scale (levels m ! l))
      \<and> \<sigma> ! mn = Float32Array (min_arr (levels m ! l))
      \<and> \<sigma> ! mx = Float32Array (max_arr (levels m ! l))"
proof -
  from assms(1) obtain as where as: "\<sigma> ! this = LevelList as"
    and ls: "load_levels \<sigma> as = Some (levels m)"
    by (auto simp: load_def split: if_splits obj.splits option.splits)
  from load_levels_nth [OF ls] assms(2) have l: "l < length as"
    and lv: "load_level \<sigma> (as ! l) = Some (levels m ! l)" by auto
  from lv obtain mn mx w h s vmin vmax where o: "\<sigma> ! (as ! l) = LevelObj mn mx w h s"
    and f: "floats \<sigma> mn = Some vmin" "floats \<sigma> mx = Some vmax"
    and e: "\<lparr>min_arr = vmin, max_arr = vmax, width = w, height = h, scale = s\<rparr> = levels m ! l"
    by (auto simp: load_level_def split: if_splits obj.splits option.splits)
  have d: "min_arr (levels m ! l) = vmin" "max_arr (levels m ! l) = vmax"
    "width (levels m ! l) = w" "height (levels m ! l) = h" "scale (levels m ! l) = s"
    unfolding e [symmetric] by simp_all
  from f have "\<sigma> ! mn = Float32Array vmin" "\<sigma> ! mx = Float32Array vmax"
    by (auto simp: floats_def split: if_splits obj.splits)
  with as l o d show ?thesis by auto
qed

text \<open>Objects added to a store leave what was read in it.\<close>

lemma floats_append: "floats \<sigma> a = Some v \<Longrightarrow> floats (\<sigma> @ \<tau>) a = Some v"
  by (auto simp: floats_def nth_append split: if_splits)

lemma load_level_append: "load_level \<sigma> a = Some l \<Longrightarrow> load_level (\<sigma> @ \<tau>) a = Some l"
  by (auto simp: load_level_def nth_append floats_append split: if_splits obj.splits option.splits)

lemma load_levels_append: "load_levels \<sigma> as = Some ls \<Longrightarrow> load_levels (\<sigma> @ \<tau>) as = Some ls"
  by (induction as arbitrary: ls) (auto simp: load_level_append split: option.splits)

lemma load_append: "load \<sigma> this = Some m \<Longrightarrow> load (\<sigma> @ \<tau>) this = Some m"
  by (auto simp: load_def nth_append load_levels_append split: if_splits obj.splits option.splits)

lemma points_of_append: "a < length \<sigma> \<Longrightarrow> points_of (\<sigma> @ \<tau>) a = points_of \<sigma> a"
  by (simp add: points_of_def nth_append)

lemma points_of_lift:
  "a < length h \<Longrightarrow> points_of (\<sigma> @ map Fragment h) (a + length \<sigma>) = conv (h ! a)"
  by (simp add: points_of_def nth_append)

text \<open>Smoothing adds the arrays of its cycles and returns the last.\<close>

lemma smooth_cycles_st_spec:
  assumes "smooth_cycles_st rnd b k n \<sigma> a = (a', \<sigma>')" and "a < length \<sigma>"
  shows "(\<exists>\<tau>. \<sigma>' = \<sigma> @ \<tau>) \<and> a' < length \<sigma>'
       \<and> points_of \<sigma>' a' = (smooth_cycle rnd b k ^^ n) (points_of \<sigma> a)"
  using assms
proof (induction n arbitrary: \<sigma> a)
  case 0
  then show ?case by simp
next
  case (Suc n)
  let ?\<sigma>1 = "\<sigma> @ [Smoothed (smooth_cycle rnd b k (points_of \<sigma> a))]"
  from Suc.prems(1) have r: "smooth_cycles_st rnd b k n ?\<sigma>1 (length \<sigma>) = (a', \<sigma>')" by simp
  have l: "length \<sigma> < length ?\<sigma>1" by simp
  from Suc.IH [OF r l] obtain \<tau> where e: "\<sigma>' = ?\<sigma>1 @ \<tau>" and a': "a' < length \<sigma>'"
    and p: "points_of \<sigma>' a' = (smooth_cycle rnd b k ^^ n) (points_of ?\<sigma>1 (length \<sigma>))"
    by auto
  have "points_of ?\<sigma>1 (length \<sigma>) = smooth_cycle rnd b k (points_of \<sigma> a)"
    by (simp add: points_of_def)
  with p have "points_of \<sigma>' a' = (smooth_cycle rnd b k ^^ Suc n) (points_of \<sigma> a)"
    by (simp add: funpow_swap1)
  with e a' show ?case by simp
qed

lemma smooth_st_spec:
  assumes "smooth_st rnd \<sigma> a k n = (r, \<sigma>')" and a: "a < length \<sigma>"
  shows "\<exists>\<tau>. \<sigma>' = \<sigma> @ \<tau>"
    and "\<forall>a'. r = Inr a' \<longrightarrow> a' < length \<sigma>'"
    and "returned1 \<sigma>' r = smooth rnd (points_of \<sigma> a) k n"
proof -
  let ?ps = "points_of \<sigma> a"
  let ?b = "js_eq (fst (?ps ! 0)) (fst (?ps ! (length ?ps - 1)))
              \<and> js_eq (snd (?ps ! 0)) (snd (?ps ! (length ?ps - 1)))"
  show "\<exists>\<tau>. \<sigma>' = \<sigma> @ \<tau>" and "\<forall>a'. r = Inr a' \<longrightarrow> a' < length \<sigma>'"
    and "returned1 \<sigma>' r = smooth rnd (points_of \<sigma> a) k n"
  proof (atomize (full), cases "?ps = [] \<or> (0 < n \<and> length ?ps < k)")
    case True
    with assms(1) have "r = Inl TypeError" "\<sigma>' = \<sigma>"
      by (auto simp: smooth_st_def Let_def split: if_splits)
    with True show "(\<exists>\<tau>. \<sigma>' = \<sigma> @ \<tau>) \<and> (\<forall>a'. r = Inr a' \<longrightarrow> a' < length \<sigma>')
        \<and> returned1 \<sigma>' r = smooth rnd (points_of \<sigma> a) k n"
      by (auto simp: smooth_def returned1_def Let_def)
  next
    case False
    obtain a' \<sigma>1 where c: "smooth_cycles_st rnd ?b k n \<sigma> a = (a', \<sigma>1)"
      by (cases "smooth_cycles_st rnd ?b k n \<sigma> a")
    with False assms(1) have r: "r = Inr a'" "\<sigma>' = \<sigma>1"
      by (auto simp: smooth_st_def Let_def)
    from smooth_cycles_st_spec [OF c a] False
    show "(\<exists>\<tau>. \<sigma>' = \<sigma> @ \<tau>) \<and> (\<forall>a'. r = Inr a' \<longrightarrow> a' < length \<sigma>')
        \<and> returned1 \<sigma>' r = smooth rnd (points_of \<sigma> a) k n"
      unfolding r by (auto simp: smooth_def returned1_def Let_def)
  qed
qed

lemma smooth_all_spec:
  assumes "smooth_all rnd k n \<sigma> as = (r, \<sigma>')" and "\<forall>a \<in> set as. a < length \<sigma>"
  shows "(\<exists>\<tau>. \<sigma>' = \<sigma> @ \<tau>)
       \<and> (\<forall>as'. r = Inr as' \<longrightarrow> (\<forall>a \<in> set as'. a < length \<sigma>'))
       \<and> returned \<sigma>' r = mapE (\<lambda>l. smooth rnd l k n) (map (points_of \<sigma>) as)"
  using assms
proof (induction as arbitrary: \<sigma> r \<sigma>')
  case Nil
  then show ?case by (auto simp: returned_def)
next
  case (Cons a as)
  obtain r1 \<sigma>1 where s1: "smooth_st rnd \<sigma> a k n = (r1, \<sigma>1)"
    by (cases "smooth_st rnd \<sigma> a k n")
  from Cons.prems(2) have a: "a < length \<sigma>" by simp
  note sp = smooth_st_spec [OF s1 a]
  from sp(1) obtain \<tau>1 where e1: "\<sigma>1 = \<sigma> @ \<tau>1" by auto
  show ?case
  proof (cases r1)
    case (Inl e)
    with Cons.prems(1) s1 have "r = Inl e" "\<sigma>' = \<sigma>1" by simp_all
    moreover have "smooth rnd (points_of \<sigma> a) k n = Inl e"
      using sp(3) Inl by (simp add: returned1_def)
    ultimately show ?thesis
      using e1 by (simp add: returned_def)
  next
    case (Inr a1)
    obtain r2 \<sigma>2 where s2: "smooth_all rnd k n \<sigma>1 as = (r2, \<sigma>2)"
      by (cases "smooth_all rnd k n \<sigma>1 as")
    have as: "\<forall>a \<in> set as. a < length \<sigma>1"
      using Cons.prems(2) e1 by auto
    from Cons.IH [OF s2 as] obtain \<tau>2 where e2: "\<sigma>2 = \<sigma>1 @ \<tau>2"
      and v2: "\<forall>as'. r2 = Inr as' \<longrightarrow> (\<forall>a \<in> set as'. a < length \<sigma>2)"
      and r2: "returned \<sigma>2 r2 = mapE (\<lambda>l. smooth rnd l k n) (map (points_of \<sigma>1) as)"
      by auto
    have "map (points_of \<sigma>1) as = map (points_of \<sigma>) as"
      using Cons.prems(2) unfolding e1 by (simp add: points_of_append)
    with r2 have r2': "returned \<sigma>2 r2 = mapE (\<lambda>l. smooth rnd l k n) (map (points_of \<sigma>) as)"
      by simp
    have a1: "a1 < length \<sigma>1" using sp(2) Inr by simp
    have p1: "smooth rnd (points_of \<sigma> a) k n = Inr (points_of \<sigma>1 a1)"
      using sp(3) Inr by (simp add: returned1_def)
    have p1': "points_of \<sigma>2 a1 = points_of \<sigma>1 a1"
      unfolding e2 using a1 by (rule points_of_append)
    have ext: "\<exists>\<tau>. \<sigma>2 = \<sigma> @ \<tau>" unfolding e2 e1 by simp
    have me: "mapE (\<lambda>l. smooth rnd l k n) (map (points_of \<sigma>) as) = returned \<sigma>2 r2"
      using r2' by simp
    show ?thesis
    proof (cases r2)
      case (Inl e)
      with Cons.prems(1) s1 s2 Inr have "r = Inl e" "\<sigma>' = \<sigma>2" by simp_all
      moreover have "mapE (\<lambda>l. smooth rnd l k n) (map (points_of \<sigma>) as) = Inl e"
        unfolding me Inl by (simp add: returned_def)
      ultimately show ?thesis
        using p1 ext by (simp add: returned_def)
    next
      case (Inr as')
      with Cons.prems(1) s1 s2 \<open>r1 = Inr a1\<close> have "r = Inr (a1 # as')" "\<sigma>' = \<sigma>2" by simp_all
      moreover have "a1 < length \<sigma>2" using a1 e2 by simp
      moreover have "mapE (\<lambda>l. smooth rnd l k n) (map (points_of \<sigma>) as)
          = Inr (map (points_of \<sigma>2) as')"
        unfolding me Inr by (simp add: returned_def)
      ultimately show ?thesis
        using Inr p1 p1' ext v2 by (simp add: returned_def)
    qed
  qed
qed

lemma lines_lift:
  assumes "\<forall>a \<in> set xs. a < length h"
  shows "map (points_of (\<sigma> @ map Fragment h))
           (filter (\<lambda>l. length (frag (\<sigma> @ map Fragment h) l) \<ge> p
                        \<and> length (frag (\<sigma> @ map Fragment h) l) \<ge> q)
              (map (\<lambda>a. a + length \<sigma>) xs))
       = map conv (filter (\<lambda>l. length l \<ge> p \<and> length l \<ge> q) (map (\<lambda>a. h ! a) xs))"
  using assms by (induction xs) (simp_all add: frag_lift points_of_lift)

text \<open>
  A call on the store returns what \<open>contour\<close> computes from the pyramid it reads, and
  leaves the store it found with new objects after it.
\<close>

lemma contour_st_spec:
  assumes m: "load \<sigma> this = Some m" and c: "contour_st rnd \<sigma> this level os = (r, \<sigma>')"
  shows "(\<exists>\<tau>. \<sigma>' = \<sigma> @ \<tau>)
       \<and> (\<forall>as. r = Inr as \<longrightarrow> (\<forall>a \<in> set as. a < length \<sigma>'))
       \<and> returned \<sigma>' r = contour rnd m level os"
proof (cases "evaluateContour m level (maxMipmapLevel os)")
  case (Inl e)
  with m c have "r = Inl e" "\<sigma>' = \<sigma>" by (simp_all add: contour_st_def)
  with Inl show ?thesis by (simp add: contour_def returned_def)
next
  case (Inr evs)
  let ?v = "stitchAll (segmentsOf m evs)"
  let ?objs = "\<sigma> @ map Fragment (heap ?v)"
  let ?xs = "rings ?v @ map snd (fragmentStart ?v)"
  let ?ls = "filter (\<lambda>l. length (frag ?objs l) \<ge> minPoints os
                        \<and> length (frag ?objs l) \<ge> smoothKernelWidth os * 2)
               (map (\<lambda>a. a + length \<sigma>) ?xs)"
  have ok: "addrs_ok ?v" by (rule addrs_ok_stitchAll)
  have xs: "\<forall>a \<in> set ?xs. a < length (heap ?v)"
    using addrs_okD(1,3) [OF ok] by auto
  have sa: "smooth_all rnd (smoothKernelWidth os) (smoothCycles os) ?objs ?ls = (r, \<sigma>')"
    using c m Inr
    by (simp add: contour_st_def stitchAll_lift lift_def Let_def snd_shift)
  have ls: "\<forall>a \<in> set ?ls. a < length ?objs"
    using xs by force
  from smooth_all_spec [OF sa ls] obtain \<tau> where e: "\<sigma>' = ?objs @ \<tau>"
    and v: "\<forall>as. r = Inr as \<longrightarrow> (\<forall>a \<in> set as. a < length \<sigma>')"
    and r: "returned \<sigma>' r = mapE (\<lambda>l. smooth rnd l (smoothKernelWidth os) (smoothCycles os))
              (map (points_of ?objs) ?ls)"
    by auto
  have "map (points_of ?objs) ?ls = map conv (stitched m os evs)"
    unfolding stitched_def Let_def ringsOf_def openLinesOf_def
    using lines_lift [OF xs, of \<sigma> "minPoints os" "smoothKernelWidth os * 2"]
    by (simp add: comp_def)
  moreover have "mapE f (map conv ls) = mapE (\<lambda>l. f (conv l)) ls" for f :: "jspoint list \<Rightarrow> error + jspoint list" and ls
    by (induction ls) (simp_all cong: sum.case_cong)
  ultimately have "returned \<sigma>' r = contour rnd m level os"
    using r Inr by (simp add: contour_def)
  with e v show ?thesis by simp
qed

lemma returned_append:
  "\<forall>as. r = Inr as \<longrightarrow> (\<forall>a \<in> set as. a < length \<sigma>) \<Longrightarrow> returned (\<sigma> @ \<tau>) r = returned \<sigma> r"
  by (cases r) (simp_all add: returned_def points_of_append)

text \<open>
  C10. A call of \<open>contour\<close> on a pyramid in the store changes no object that was in the
  store, so no array and no level of the pyramid: it only adds objects. The pyramid reads
  the same after the call. A second call with the same threshold and options returns
  lines with the same points as the first, and leaves the lines of the first as they were.
\<close>

theorem contour_leaves_pyramid:
  assumes "load \<sigma> this = Some m"
    and "contour_st rnd \<sigma> this level os = (r, \<sigma>')"
    and "contour_st rnd \<sigma>' this level os = (r', \<sigma>'')"
  shows "take (length \<sigma>) \<sigma>' = \<sigma>
       \<and> load \<sigma>' this = Some m
       \<and> returned \<sigma>' r = contour rnd m level os
       \<and> returned \<sigma>'' r' = returned \<sigma>' r
       \<and> returned \<sigma>'' r = returned \<sigma>' r"
proof -
  from contour_st_spec [OF assms(1,2)] obtain \<tau> where e: "\<sigma>' = \<sigma> @ \<tau>"
    and v: "\<forall>as. r = Inr as \<longrightarrow> (\<forall>a \<in> set as. a < length \<sigma>')"
    and r: "returned \<sigma>' r = contour rnd m level os"
    by auto
  have m': "load \<sigma>' this = Some m"
    unfolding e using assms(1) by (rule load_append)
  from contour_st_spec [OF m' assms(3)] obtain \<tau>' where e': "\<sigma>'' = \<sigma>' @ \<tau>'"
    and r': "returned \<sigma>'' r' = contour rnd m level os"
    by auto
  have "returned \<sigma>'' r = returned \<sigma>' r"
    unfolding e' using v by (rule returned_append)
  with e m' r r' show ?thesis by simp
qed


lemma peak_load: "load peak_store 8 = Some peak"
proof -
  have "peak = \<lparr>levels = levels peak\<rparr>" by simp
  then have p: "peak = \<lparr>levels =
    [\<lparr>min_arr = [Fin 1], max_arr = [Fin 9], width = 1, height = 1, scale = 4\<rparr>,
     \<lparr>min_arr = [Fin 1, Fin 1, Fin 1, Fin 1], max_arr = [Fin 9, Fin 1, Fin 1, Fin 1],
        width = 2, height = 2, scale = 2\<rparr>,
     \<lparr>min_arr = peak_raster, max_arr = peak_raster, width = 3, height = 3, scale = 1\<rparr>]\<rparr>"
    unfolding peak_levels .
  show ?thesis
    unfolding p by (simp add: load_def load_level_def floats_def peak_store_def)
qed

lemma peak_call:
  "contour_st double_round (peak_store @ \<tau>) 8 (Fin 5) default_opts =
    (Inr [length \<tau> + 11],
     peak_store @ \<tau> @
       [Fragment [(2, 1), (1, 1), (1, 2), (2, 2), (2, 1)],
        Smoothed (smooth_cycle double_round True 2 (conv [(2, 1), (1, 1), (1, 2), (2, 2), (2, 1)])),
        Smoothed ((smooth_cycle double_round True 2 ^^ 2) (conv [(2, 1), (1, 1), (1, 2), (2, 2), (2, 1)]))])"
proof -
  let ?ring = "[(2, 1), (1, 1), (1, 2), (2, 2), (2 :: nat, 1 :: nat)]"
  let ?\<sigma> = "peak_store @ \<tau>"
  have l: "length peak_store = 9" by (simp add: peak_store_def)
  have ld: "load ?\<sigma> 8 = Some peak" using peak_load by (rule load_append)
  have ev: "evaluateContour peak (Fin 5) (maxMipmapLevel default_opts) = Inr
         [Leaf 2 0 0 BELOW, Leaf 2 1 0 BELOW, Leaf 2 0 1 BELOW, Leaf 2 1 1 ABOVE,
          Line 2 1 1 1 2, Line 2 2 1 1 1, Leaf 1 1 0 BELOW, Leaf 1 0 1 BELOW, Leaf 1 1 1 BELOW,
          Line 2 2 2 2 1, Line 2 1 2 2 2]"
    using peak_events by (simp add: default_opts_def)
  have st: "stitchAll_st ?\<sigma> (segmentsOf peak
         [Leaf 2 0 0 BELOW, Leaf 2 1 0 BELOW, Leaf 2 0 1 BELOW, Leaf 2 1 1 ABOVE,
          Line 2 1 1 1 2, Line 2 2 1 1 1, Leaf 1 1 0 BELOW, Leaf 1 0 1 BELOW, Leaf 1 1 1 BELOW,
          Line 2 2 2 2 1, Line 2 1 2 2 2])
      = \<lparr> objects = ?\<sigma> @ [Fragment ?ring], frag_start = [], frag_end = [],
          ring_addrs = [length \<tau> + 9], messages = [] \<rparr>"
    unfolding peak_segments stitchAll_lift peak_stitch by (simp add: lift_def shift_def l)
  have f: "frag (?\<sigma> @ [Fragment ?ring]) (length \<tau> + 9) = ?ring"
    by (simp add: frag_def nth_append l)
  have p: "points_of (?\<sigma> @ [Fragment ?ring]) (length \<tau> + 9) = conv ?ring"
    by (simp add: points_of_def nth_append l)
  have c: "conv ?ring \<noteq> []" "length (conv ?ring) = 5"
    "js_eq (fst (conv ?ring ! 0)) (fst (conv ?ring ! (length (conv ?ring) - 1)))
      \<and> js_eq (snd (conv ?ring ! 0)) (snd (conv ?ring ! (length (conv ?ring) - 1)))"
    by (simp_all add: conv_def js_eq_def)
  have cy: "smooth_cycles_st double_round True 2 2 (?\<sigma> @ [Fragment ?ring]) (length \<tau> + 9)
      = (length \<tau> + 11,
         ?\<sigma> @ [Fragment ?ring, Smoothed (smooth_cycle double_round True 2 (conv ?ring)),
           Smoothed ((smooth_cycle double_round True 2 ^^ 2) (conv ?ring))])"
    unfolding numeral_2_eq_2 smooth_cycles_st.simps p
    by (simp add: points_of_def nth_append l)
  have sm: "smooth_st double_round (?\<sigma> @ [Fragment ?ring]) (length \<tau> + 9) 2 2
      = (Inr (length \<tau> + 11),
         ?\<sigma> @ [Fragment ?ring, Smoothed (smooth_cycle double_round True 2 (conv ?ring)),
           Smoothed ((smooth_cycle double_round True 2 ^^ 2) (conv ?ring))])"
    unfolding smooth_st_def Let_def p using c cy by simp
  show ?thesis
    unfolding contour_st_def ld option.case ev sum.case Let_def st
    using f sm by (simp add: default_opts_def)
qed

theorem contour_leaves_pyramid_witness:
  "load peak_store 8 = Some peak
   \<and> contour_st double_round peak_store 8 (Fin 5) default_opts =
       (Inr [11],
        peak_store @
          [Fragment [(2, 1), (1, 1), (1, 2), (2, 2), (2, 1)],
           Smoothed (smooth_cycle double_round True 2 (conv [(2, 1), (1, 1), (1, 2), (2, 2), (2, 1)])),
           Smoothed ((smooth_cycle double_round True 2 ^^ 2) (conv [(2, 1), (1, 1), (1, 2), (2, 2), (2, 1)]))])
   \<and> fst (contour_st double_round
       (peak_store @
          [Fragment [(2, 1), (1, 1), (1, 2), (2, 2), (2, 1)],
           Smoothed (smooth_cycle double_round True 2 (conv [(2, 1), (1, 1), (1, 2), (2, 2), (2, 1)])),
           Smoothed ((smooth_cycle double_round True 2 ^^ 2) (conv [(2, 1), (1, 1), (1, 2), (2, 2), (2, 1)]))])
       8 (Fin 5) default_opts) = Inr [14]
   \<and> load (peak_store @
          [Fragment [(2, 1), (1, 1), (1, 2), (2, 2), (2, 1)],
           Smoothed (smooth_cycle double_round True 2 (conv [(2, 1), (1, 1), (1, 2), (2, 2), (2, 1)])),
           Smoothed ((smooth_cycle double_round True 2 ^^ 2) (conv [(2, 1), (1, 1), (1, 2), (2, 2), (2, 1)]))])
        8 = Some peak
   \<and> returned
        (snd (contour_st double_round
          (peak_store @
             [Fragment [(2, 1), (1, 1), (1, 2), (2, 2), (2, 1)],
              Smoothed (smooth_cycle double_round True 2 (conv [(2, 1), (1, 1), (1, 2), (2, 2), (2, 1)])),
              Smoothed ((smooth_cycle double_round True 2 ^^ 2) (conv [(2, 1), (1, 1), (1, 2), (2, 2), (2, 1)]))])
          8 (Fin 5) default_opts)) (Inr [14])
      = Inr [(smooth_cycle double_round True 2 ^^ 2) (conv [(2, 1), (1, 1), (1, 2), (2, 2), (2, 1)])]"
proof -
  let ?ring = "[(2, 1), (1, 1), (1, 2), (2, 2), (2 :: nat, 1 :: nat)]"
  let ?new = "[Fragment ?ring, Smoothed (smooth_cycle double_round True 2 (conv ?ring)),
     Smoothed ((smooth_cycle double_round True 2 ^^ 2) (conv ?ring))]"
  let ?\<sigma>1 = "peak_store @ ?new"
  let ?c2 = "contour_st double_round ?\<sigma>1 8 (Fin 5) default_opts"
  have c1: "contour_st double_round peak_store 8 (Fin 5) default_opts = (Inr [11], ?\<sigma>1)"
    using peak_call [of "[]"] by simp
  have c2: "?c2 = (fst ?c2, snd ?c2)" by simp
  have f: "fst ?c2 = Inr [14]"
    using peak_call [of ?new] by simp
  have r1: "returned ?\<sigma>1 (Inr [11]) = Inr [(smooth_cycle double_round True 2 ^^ 2) (conv ?ring)]"
    by (simp add: returned_def points_of_def peak_store_def)
  from contour_leaves_pyramid [OF peak_load c1 c2]
  have t: "load ?\<sigma>1 8 = Some peak" "returned (snd ?c2) (fst ?c2) = returned ?\<sigma>1 (Inr [11])"
    by blast+
  have "returned (snd ?c2) (Inr [14]) = Inr [(smooth_cycle double_round True 2 ^^ 2) (conv ?ring)]"
    using t(2) unfolding f r1 .
  with peak_load c1 f t(1) show ?thesis
    by blast
qed
end
